theory Spec2Isabelle
  imports Main "HOL-Library.Char_ord" "HOL-Library.List_Lexorder" "HOL-Library.Multiset"
begin

section \<open>Binding registry: \<open>EventManager\<close> and \<open>Binding_\<close>\<close>

text \<open>
  Event targets and listeners are JavaScript objects; only their identity matters to the
  registry, so both are natural numbers. A \<open>Binding_\<close> is an object that the registry
  mutates after storing it, so bindings live in a store (\<open>heap\<close>, the address of a binding
  is its index) and the registry's map holds addresses. The calls the bindings make on
  their targets (\<open>addEventListener\<close>, \<open>removeEventListener\<close>) are recorded in \<open>calls\<close>,
  each with the address of the binding that made it.
\<close>

type_synonym eventTarget = nat
type_synonym listenerType = nat
type_synonym ref = nat

record binding =
  target :: "eventTarget option"
  type :: string
  listener :: "listenerType option"

datatype targetCall =
    AddEventListener eventTarget string listenerType
  | RemoveEventListener eventTarget string "listenerType option"

type_synonym multiMap = "(string \<times> ref list) list"

text \<open>
  Modelled from the spec: \<open>MultiMap\<close> (utils/multi-map) is imported by the registry and is
  not among the sources. The spec describes the registry's storage as "a mapping from
  event-type (string key) to an ordered sequence of Bindings (insertion order preserved;
  duplicates by same source+type allowed and independently removable)". \<open>push\<close> appends a
  value to the sequence of its key.
\<close>

definition mm_push :: "string \<Rightarrow> ref \<Rightarrow> multiMap \<Rightarrow> multiMap" where
  "mm_push k v m =
     (if k \<in> fst ` set m
      then map (\<lambda>(k', vs). if k' = k then (k', vs @ [v]) else (k', vs)) m
      else m @ [(k, [v])])"

text \<open>
  Modelled from the spec: \<open>MultiMap.get\<close>, the sequence stored for a key, empty when the key
  is absent ("missing bindings simply produce no effect"). The result is a value: later
  changes of the map do not change a sequence already returned.
\<close>

definition mm_get :: "string \<Rightarrow> multiMap \<Rightarrow> ref list" where
  "mm_get k m = (case map_of m k of None \<Rightarrow> [] | Some vs \<Rightarrow> vs)"

text \<open>
  Modelled from the spec: \<open>MultiMap.remove\<close>, which takes one stored value (compared by
  identity) out of the sequence of its key.
\<close>

definition mm_remove :: "string \<Rightarrow> ref \<Rightarrow> multiMap \<Rightarrow> multiMap" where
  "mm_remove k v m = map (\<lambda>(k', vs). if k' = k then (k', filter (\<lambda>x. x \<noteq> v) vs) else (k', vs)) m"

text \<open>
  Modelled from the spec: \<open>MultiMap.getAll\<close>, every stored value, key by key.
\<close>

definition mm_getAll :: "multiMap \<Rightarrow> ref list" where
  "mm_getAll m = concat (map snd m)"

text \<open>
  Modelled from the spec: \<open>MultiMap.clear\<close>, after which the mapping is empty.
\<close>

definition mm_clear :: "multiMap \<Rightarrow> multiMap" where
  "mm_clear m = []"

record eventManager =
  bindingMap :: "multiMap option"
  heap :: "binding list"
  calls :: "(ref \<times> targetCall) list"

text \<open>\<open>new EventManager()\<close>, in a world where no binding exists yet.\<close>

definition new_EventManager :: eventManager where
  "new_EventManager = \<lparr>bindingMap = Some [], heap = [], calls = []\<rparr>"

text \<open>
  \<open>new Binding_(target, type, listener)\<close>: stores the three fields and attaches the
  listener to the target. Returns the address of the new object.
\<close>

definition new_Binding :: "eventTarget \<Rightarrow> string \<Rightarrow> listenerType \<Rightarrow> eventManager \<Rightarrow> ref \<times> eventManager" where
  "new_Binding t ty l w =
     (length (heap w),
      w\<lparr>heap := heap w @ [\<lparr>target = Some t, type = ty, listener = Some l\<rparr>],
        calls := calls w @ [(length (heap w), AddEventListener t ty l)]\<rparr>)"

text \<open>
  \<open>Binding_.unlisten\<close>: returns at once when \<open>target\<close> is null, else calls
  \<open>removeEventListener\<close> and nulls \<open>target\<close> and \<open>listener\<close>. A reference always points
  to an object, so an address outside the store is left alone.
\<close>

definition Binding_unlisten :: "ref \<Rightarrow> eventManager \<Rightarrow> eventManager" where
  "Binding_unlisten a w =
     (if a < length (heap w) then
        (case target (heap w ! a) of
           None \<Rightarrow> w
         | Some t \<Rightarrow>
             w\<lparr>calls := calls w @ [(a, RemoveEventListener t (type (heap w ! a)) (listener (heap w ! a)))],
               heap := (heap w)[a := (heap w ! a)\<lparr>target := None, listener := None\<rparr>]\<rparr>)
      else w)"

text \<open>\<open>EventManager.listen\<close>: the binding is created (and attached) first, then stored if the map exists.\<close>

definition listen :: "eventTarget \<Rightarrow> string \<Rightarrow> listenerType \<Rightarrow> eventManager \<Rightarrow> eventManager" where
  "listen t ty l w =
     (case new_Binding t ty l w of
        (a, w') \<Rightarrow>
          (case bindingMap w' of
             Some m \<Rightarrow> w'\<lparr>bindingMap := Some (mm_push ty a m)\<rparr>
           | None \<Rightarrow> w'))"

text \<open>
  What \<open>EventManager.unlisten\<close> does with a binding whose target matches: the binding
  detaches its listener, then is removed from the map (if the map exists).
\<close>

definition detachAndRemove :: "string \<Rightarrow> ref \<Rightarrow> eventManager \<Rightarrow> eventManager" where
  "detachAndRemove ty a w =
     (case bindingMap (Binding_unlisten a w) of
        Some m \<Rightarrow> (Binding_unlisten a w)\<lparr>bindingMap := Some (mm_remove ty a m)\<rparr>
      | None \<Rightarrow> Binding_unlisten a w)"

text \<open>
  The \<open>for\<close> loop of \<open>EventManager.unlisten\<close>, run over the sequence that \<open>get(type)\<close>
  returned: each binding whose \<open>target\<close> is the given one is detached and removed.
\<close>

fun unlisten_loop :: "eventTarget \<Rightarrow> string \<Rightarrow> ref list \<Rightarrow> eventManager \<Rightarrow> eventManager" where
  "unlisten_loop t ty [] w = w"
| "unlisten_loop t ty (a # as) w =
     unlisten_loop t ty as
       (if a < length (heap w) \<and> target (heap w ! a) = Some t then detachAndRemove ty a w else w)"

definition unlisten :: "eventTarget \<Rightarrow> string \<Rightarrow> eventManager \<Rightarrow> eventManager" where
  "unlisten t ty w =
     (case bindingMap w of
        None \<Rightarrow> w
      | Some m \<Rightarrow> unlisten_loop t ty (mm_get ty m) w)"

text \<open>\<open>EventManager.removeAll\<close>: every stored binding is told to unlisten, then the map is cleared.\<close>

definition removeAll_bindings :: "eventManager \<Rightarrow> eventManager" where
  "removeAll_bindings w =
     (case bindingMap w of
        None \<Rightarrow> w
      | Some m \<Rightarrow>
          (case bindingMap (fold Binding_unlisten (mm_getAll m) w) of
             Some m' \<Rightarrow> (fold Binding_unlisten (mm_getAll m) w)\<lparr>bindingMap := Some (mm_clear m')\<rparr>
           | None \<Rightarrow> fold Binding_unlisten (mm_getAll m) w))"

text \<open>\<open>EventManager.destroy\<close>.\<close>

definition destroy :: "eventManager \<Rightarrow> eventManager" where
  "destroy w = (removeAll_bindings w)\<lparr>bindingMap := None\<rparr>"

text \<open>Sequences of \<open>listen\<close> and \<open>unlisten\<close> calls on a fresh registry.\<close>

datatype registryCall =
    Listen eventTarget string listenerType
  | Unlisten eventTarget string

fun registryStep :: "registryCall \<Rightarrow> eventManager \<Rightarrow> eventManager" where
  "registryStep (Listen t ty l) w = listen t ty l w"
| "registryStep (Unlisten t ty) w = unlisten t ty w"

definition registryRun :: "registryCall list \<Rightarrow> eventManager" where
  "registryRun cs = fold registryStep cs new_EventManager"

text \<open>The calls that the binding at an address has made on its target, in order.\<close>

definition callsOf :: "ref \<Rightarrow> eventManager \<Rightarrow> targetCall list" where
  "callsOf a w = map snd (filter (\<lambda>(b, c). b = a) (calls w))"

text \<open>The arguments of the \<open>listen\<close> calls of a sequence, in order.\<close>

fun listenCalls :: "registryCall list \<Rightarrow> (eventTarget \<times> string \<times> listenerType) list" where
  "listenCalls [] = []"
| "listenCalls (Listen t ty l # cs) = (t, ty, l) # listenCalls cs"
| "listenCalls (Unlisten t ty # cs) = listenCalls cs"

section \<open>Ad scheduler: \<open>AdsController\<close>\<close>

subsection \<open>Numbers and values\<close>

text \<open>
  Numbers of the source are IEEE doubles. The embedding covers their integer values
  (positions and times in whole seconds, of magnitude below \<open>10^21\<close>), on which
  comparison, subtraction and the conversion to a string are exact, and \<open>NaN\<close>, which
  \<open>typeof\<close> also calls a number.
\<close>

datatype number = Num int | NaN

text \<open>
  What the scheduler can find where a number is declared (the player's current time, the
  two thresholds of the configuration, the position of a configured break): \<open>undefined\<close>,
  \<open>null\<close> or a number.
\<close>

datatype jsValue = Undefined | Null | Number number

text \<open>\<open>typeof v === 'number'\<close>.\<close>

fun isNumber :: "jsValue \<Rightarrow> bool" where
  "isNumber (Number x) = True"
| "isNumber v = False"

text \<open>The conversion to a number that a comparison applies to an operand: \<open>undefined\<close> becomes \<open>NaN\<close>, \<open>null\<close> becomes \<open>0\<close>.\<close>

fun toNumber :: "jsValue \<Rightarrow> number" where
  "toNumber (Number x) = x"
| "toNumber Null = Num 0"
| "toNumber Undefined = NaN"

text \<open>A value in a condition: \<open>undefined\<close>, \<open>null\<close>, \<open>0\<close> and \<open>NaN\<close> are falsy.\<close>

fun truthy :: "jsValue \<Rightarrow> bool" where
  "truthy (Number (Num n)) = (n \<noteq> 0)"
| "truthy v = False"

text \<open>\<open>a || b\<close>.\<close>

definition orElse :: "jsValue \<Rightarrow> jsValue \<Rightarrow> jsValue" where
  "orElse a b = (if truthy a then a else b)"

text \<open>\<open>a < b\<close> and \<open>a <= b\<close> on numbers: false when an operand is \<open>NaN\<close>.\<close>

fun lessNum :: "number \<Rightarrow> number \<Rightarrow> bool" where
  "lessNum (Num a) (Num b) = (a < b)"
| "lessNum a b = False"

fun lessEqNum :: "number \<Rightarrow> number \<Rightarrow> bool" where
  "lessEqNum (Num a) (Num b) = (a \<le> b)"
| "lessEqNum a b = False"

text \<open>\<open>a - b\<close>: \<open>NaN\<close> when an operand is \<open>NaN\<close>.\<close>

fun minusNum :: "number \<Rightarrow> number \<Rightarrow> number" where
  "minusNum (Num a) (Num b) = Num (a - b)"
| "minusNum a b = NaN"

subsection \<open>Data of the scheduler\<close>

type_synonym pkAdObject = string

text \<open>An entry of \<open>config.advertising.adBreaks\<close>.\<close>

record pkAdBreakObject =
  cfg_position :: jsValue
  cfg_ads :: "pkAdObject list"

text \<open>
  An element of \<open>_configAdBreaks\<close>: an entry that passed the filter, so its position is a
  number, with its \<open>played\<close> flag.
\<close>

record runTimeAdBreakObject =
  position :: number
  ads :: "pkAdObject list"
  played :: bool

record playerConfig =
  playAdsAfterTime :: jsValue
  startTime :: jsValue
  adBreaks :: "pkAdBreakObject list"

text \<open>What the scheduler reads from the player.\<close>

record player =
  config :: playerConfig
  paused :: bool
  currentTime :: jsValue

text \<open>An ads plugin controller: its \<open>name\<close>, \<open>active\<close> and \<open>done\<close> properties.\<close>

record adsPluginController =
  ctrl_name :: string
  ctrl_active :: bool
  ctrl_done :: bool

datatype severity = RECOVERABLE | CRITICAL

text \<open>What the scheduler does to its collaborators, in the order it does it.\<close>

datatype effect =
    PlayAdNow string "pkAdObject list"
  | OnPlaybackEnded string
  | SkipAd string
  | Dispatch_AD_MANIFEST_LOADED "number list"
  | Dispatch_ALL_ADS_COMPLETED
  | LoggerWarn string

text \<open>
  The two \<open>finally\<close> callbacks of \<open>_onEnded\<close>, waiting for their promise to settle. The
  first one has captured \<open>adCtrl\<close> (here, its name).
\<close>

datatype promiseCallback =
    BumperFinally "string option"
  | PrimaryFinally

text \<open>
  The fields of the class, with the player as far as the scheduler reads it. \<open>pending\<close>
  and \<open>effects\<close> are not fields of the class: the first holds the promise callbacks that
  wait in the runtime, the second records what the scheduler has done so far.
\<close>

record adsController =
  player :: player
  adsPluginControllers :: "adsPluginController list"
  allAdsCompleted :: bool
  adBreaksLayout :: "number list"
  adBreak :: "nat option"
  ad :: "nat option"
  adPlayed :: bool
  snapback :: number
  configAdBreaks :: "runTimeAdBreakObject list"
  adIsLoading :: bool
  pending :: "promiseCallback list"
  effects :: "effect list"

subsection \<open>JavaScript library functions used by the scheduler\<close>

text \<open>\<open>Array.prototype.findIndex\<close>: the first index whose element satisfies the test, \<open>-1\<close> when none does.\<close>

fun findIndex :: "('a \<Rightarrow> bool) \<Rightarrow> 'a list \<Rightarrow> int" where
  "findIndex P [] = - 1"
| "findIndex P (x # xs) =
     (if P x then 0 else if findIndex P xs < 0 then - 1 else findIndex P xs + 1)"

text \<open>\<open>Array.from(new Set(xs))\<close>: the elements of \<open>xs\<close> in the order of their first occurrence.\<close>

definition arrayFromSet :: "'a list \<Rightarrow> 'a list" where
  "arrayFromSet xs = fold (\<lambda>x acc. if x \<in> set acc then acc else acc @ [x]) xs []"

text \<open>
  \<open>Array.prototype.sort(comparefn)\<close>. An element goes behind another when \<open>comparefn\<close> of
  the two is greater than \<open>0\<close>; a result that is \<open>NaN\<close> counts as \<open>0\<close>. When the comparison
  function is consistent the result is the stable ascending order, whatever the
  implementation. When it is not (here: when a position is \<open>NaN\<close>) the language leaves
  the order to the implementation, and the model gives the order of an insertion sort.
\<close>

fun isPositive :: "number \<Rightarrow> bool" where
  "isPositive (Num n) = (0 < n)"
| "isPositive NaN = False"

fun insertSorted :: "('a \<Rightarrow> 'a \<Rightarrow> number) \<Rightarrow> 'a \<Rightarrow> 'a list \<Rightarrow> 'a list" where
  "insertSorted comparefn x [] = [x]"
| "insertSorted comparefn x (y # ys) =
     (if isPositive (comparefn x y) then y # insertSorted comparefn x ys else x # y # ys)"

definition sortWith :: "('a \<Rightarrow> 'a \<Rightarrow> number) \<Rightarrow> 'a list \<Rightarrow> 'a list" where
  "sortWith comparefn xs = foldr (insertSorted comparefn) xs []"

text \<open>
  Number-to-string conversion: the decimal digits of an integer, with a leading minus
  sign, and \<open>NaN\<close>.
\<close>

definition digitChar :: "nat \<Rightarrow> char" where
  "digitChar d = ''0123456789'' ! d"

fun digits :: "nat \<Rightarrow> string \<Rightarrow> string" where
  "digits n acc =
     (if n < 10 then digitChar n # acc
      else digits (n div 10) (digitChar (n mod 10) # acc))"

fun toString :: "number \<Rightarrow> string" where
  "toString (Num i) = (if i < 0 then CHR ''-'' # digits (nat (- i)) [] else digits (nat i) [])"
| "toString NaN = ''NaN''"

text \<open>
  \<open>Array.prototype.sort()\<close> called without a comparison function: the elements are ordered
  by their string conversions, compared code unit by code unit.
\<close>

definition defaultSort :: "number list \<Rightarrow> number list" where
  "defaultSort xs = sort_key toString xs"

subsection \<open>Methods\<close>

definition isAdBreak :: "adsController \<Rightarrow> bool" where
  "isAdBreak s = (adBreak s \<noteq> None)"

definition getAdBreaksLayout :: "adsController \<Rightarrow> number list" where
  "getAdBreaksLayout s = adBreaksLayout s"

definition isBumper :: "adsPluginController \<Rightarrow> bool" where
  "isBumper c = (ctrl_name c = ''bumper'')"

definition skipAd :: "adsController \<Rightarrow> adsController" where
  "skipAd s =
     (case find ctrl_active (adsPluginControllers s) of
        Some c \<Rightarrow> s\<lparr>effects := effects s @ [SkipAd (ctrl_name c)]\<rparr>
      | None \<Rightarrow> s)"

text \<open>
  \<open>_playAdBreak\<close> writes the \<open>played\<close> field of the object it is given, so the model returns
  that object with the new state.
\<close>

definition playAdBreak :: "runTimeAdBreakObject \<Rightarrow> adsController \<Rightarrow> runTimeAdBreakObject \<times> adsController" where
  "playAdBreak b s =
     (case find (\<lambda>c. \<not> isBumper c) (adsPluginControllers s) of
        Some c \<Rightarrow>
          (b\<lparr>played := True\<rparr>,
           s\<lparr>adIsLoading := True, effects := effects s @ [PlayAdNow (ctrl_name c) (ads b)]\<rparr>)
      | None \<Rightarrow> (b, s\<lparr>effects := effects s @ [LoggerWarn ''No ads plugin registered'']\<rparr>))"

text \<open>\<open>_playAdBreak\<close> on the element of \<open>_configAdBreaks\<close> at index \<open>i\<close>: the write lands in the array.\<close>

definition playConfigAdBreak :: "nat \<Rightarrow> adsController \<Rightarrow> adsController" where
  "playConfigAdBreak i s =
     (case playAdBreak (configAdBreaks s ! i) s of
        (b', s') \<Rightarrow> s'\<lparr>configAdBreaks := (configAdBreaks s')[i := b']\<rparr>)"

definition playAdNow :: "pkAdObject list \<Rightarrow> adsController \<Rightarrow> adsController" where
  "playAdNow adPod s =
     (if isAdBreak s then s\<lparr>effects := effects s @ [LoggerWarn ''Tried to call playAdNow during an ad break'']\<rparr>
      else snd (playAdBreak
             \<lparr>position = toNumber (orElse (currentTime (player s)) (Number (Num 0))),
              ads = adPod, played = False\<rparr> s))"

definition initMembers :: "adsController \<Rightarrow> adsController" where
  "initMembers s =
     s\<lparr>allAdsCompleted := True, adBreaksLayout := [], adBreak := None, ad := None,
       adPlayed := False, snapback := Num 0, adIsLoading := False\<rparr>"

definition onAdManifestLoaded :: "number list \<Rightarrow> adsController \<Rightarrow> adsController" where
  "onAdManifestLoaded adBreaksPosition s =
     s\<lparr>adBreaksLayout := defaultSort (arrayFromSet (adBreaksLayout s @ adBreaksPosition)),
       allAdsCompleted := False\<rparr>"

text \<open>
  The local constant \<open>playAdsAfterTime\<close> of \<open>_handleConfiguredAdBreaks\<close>:
  \<open>advertising.playAdsAfterTime || playback.startTime\<close>.
\<close>

definition effectivePlayAdsAfterTime :: "playerConfig \<Rightarrow> jsValue" where
  "effectivePlayAdsAfterTime c = orElse (playAdsAfterTime c) (startTime c)"

text \<open>The test of the \<open>filter\<close>: the position is of type number and \<open>ads\<close> is not empty.\<close>

definition eligible :: "pkAdBreakObject \<Rightarrow> bool" where
  "eligible b \<longleftrightarrow> isNumber (cfg_position b) \<and> cfg_ads b \<noteq> []"

text \<open>The function of the \<open>map\<close>: the entry with its \<open>ads\<close> copied and its \<open>played\<close> flag.\<close>

definition toRunTime :: "jsValue \<Rightarrow> pkAdBreakObject \<Rightarrow> runTimeAdBreakObject" where
  "toRunTime threshold b =
     \<lparr>position = toNumber (cfg_position b), ads = cfg_ads b,
      played = (lessNum (Num (- 1)) (toNumber (cfg_position b)) \<and>
                lessEqNum (toNumber (cfg_position b)) (toNumber threshold))\<rparr>"

text \<open>The comparison function of the \<open>sort\<close>: \<open>(a, b) => a.position - b.position\<close>.\<close>

definition comparePosition :: "runTimeAdBreakObject \<Rightarrow> runTimeAdBreakObject \<Rightarrow> number" where
  "comparePosition a b = minusNum (position a) (position b)"

text \<open>The value assigned to \<open>_configAdBreaks\<close>: \<open>filter\<close>, \<open>map\<close>, \<open>sort\<close>.\<close>

definition ingestAdBreaks :: "playerConfig \<Rightarrow> runTimeAdBreakObject list" where
  "ingestAdBreaks c =
     sortWith comparePosition
       (map (toRunTime (effectivePlayAdsAfterTime c)) (filter eligible (adBreaks c)))"

definition handleConfiguredPreroll :: "adsController \<Rightarrow> adsController" where
  "handleConfiguredPreroll s =
     (if 0 \<le> findIndex (\<lambda>b. position b = Num 0 \<and> \<not> played b) (configAdBreaks s)
      then playConfigAdBreak (nat (findIndex (\<lambda>b. position b = Num 0 \<and> \<not> played b) (configAdBreaks s))) s
      else s)"

text \<open>
  \<open>_handleConfiguredAdBreaks\<close>. The player is an event target: the \<open>AD_MANIFEST_LOADED\<close> event
  dispatched on it reaches the listener that \<open>_addBindings\<close> attached, \<open>_onAdManifestLoaded\<close>,
  before \<open>dispatchEvent\<close> returns. \<open>_handleConfiguredMidrolls\<close> attaches the listeners
  \<open>onTimeUpdate\<close> and \<open>onSeeked\<close> below and changes no field.
\<close>

definition handleConfiguredAdBreaks :: "adsController \<Rightarrow> adsController" where
  "handleConfiguredAdBreaks s =
     (let s1 = s\<lparr>configAdBreaks := ingestAdBreaks (config (player s))\<rparr>;
          adBreaksPosition = map position (configAdBreaks s1)
      in if configAdBreaks s1 \<noteq> [] then
           (let s2 = onAdManifestLoaded adBreaksPosition
                       (s1\<lparr>effects := effects s1 @ [Dispatch_AD_MANIFEST_LOADED adBreaksPosition]\<rparr>)
            in if Num 0 \<in> set adBreaksPosition then handleConfiguredPreroll s2 else s2)
         else s1)"

definition init :: "adsController \<Rightarrow> adsController" where
  "init s = handleConfiguredAdBreaks (initMembers s)"

text \<open>The constructor: the two fields it assigns, then \<open>_init\<close>. No promise is outstanding, nothing has been done yet.\<close>

definition new_AdsController :: "player \<Rightarrow> adsPluginController list \<Rightarrow> adsController" where
  "new_AdsController p ctrls =
     init \<lparr>player = p, adsPluginControllers = ctrls, allAdsCompleted = True, adBreaksLayout = [],
           adBreak = None, ad = None, adPlayed = False, snapback = Num 0, configAdBreaks = [],
           adIsLoading = False, pending = [], effects = []\<rparr>"

text \<open>
  The \<open>TIME_UPDATE\<close> listener. \<open>dueAdBreaks\<close> is the \<open>filter\<close> of the source, as the indices
  of the elements it keeps.
\<close>

definition dueAdBreaks :: "adsController \<Rightarrow> nat list" where
  "dueAdBreaks s =
     filter (\<lambda>i. \<not> played (configAdBreaks s ! i) \<and>
                 truthy (currentTime (player s)) \<and>
                 lessEqNum (position (configAdBreaks s ! i)) (toNumber (currentTime (player s))) \<and>
                 lessNum (snapback s) (position (configAdBreaks s ! i)))
       [0 ..< length (configAdBreaks s)]"

definition onTimeUpdate :: "adsController \<Rightarrow> adsController" where
  "onTimeUpdate s =
     (if \<not> paused (player s) then
        (if dueAdBreaks s \<noteq> [] then
           playConfigAdBreak (last (dueAdBreaks s))
             (s\<lparr>snapback := position (configAdBreaks s ! last (dueAdBreaks s))\<rparr>)
         else s)
      else s)"

text \<open>The \<open>SEEKED\<close> listener.\<close>

definition nextPlayedAdBreakIndex :: "adsController \<Rightarrow> int" where
  "nextPlayedAdBreakIndex s =
     findIndex (\<lambda>b. played b \<and> isNumber (currentTime (player s)) \<and>
                    lessNum (toNumber (currentTime (player s))) (position b))
       (configAdBreaks s)"

definition onSeeked :: "adsController \<Rightarrow> adsController" where
  "onSeeked s =
     (if 0 < nextPlayedAdBreakIndex s \<and>
         \<not> played (configAdBreaks s ! nat (nextPlayedAdBreakIndex s - 1))
      then s\<lparr>snapback := Num 0\<rparr>
      else s)"

definition onAdBreakStart :: "nat \<Rightarrow> adsController \<Rightarrow> adsController" where
  "onAdBreakStart b s = s\<lparr>adBreak := Some b\<rparr>"

definition onAdLoaded :: "nat \<Rightarrow> adsController \<Rightarrow> adsController" where
  "onAdLoaded a s = s\<lparr>adIsLoading := False, ad := Some a\<rparr>"

definition onAdStarted :: "nat \<Rightarrow> adsController \<Rightarrow> adsController" where
  "onAdStarted a s = s\<lparr>ad := Some a, adPlayed := True\<rparr>"

definition onAdBreakEnd :: "adsController \<Rightarrow> adsController" where
  "onAdBreakEnd s = s\<lparr>adBreak := None, ad := None\<rparr>"

definition onAdsCompleted :: "adsController \<Rightarrow> adsController" where
  "onAdsCompleted s =
     (if list_all ctrl_done (adsPluginControllers s) \<and> list_all played (configAdBreaks s)
      then s\<lparr>allAdsCompleted := True, effects := effects s @ [Dispatch_ALL_ADS_COMPLETED]\<rparr>
      else s)"

definition onAdError :: "severity \<Rightarrow> adsController \<Rightarrow> adsController" where
  "onAdError sev s =
     (let s1 = s\<lparr>adIsLoading := False\<rparr>
      in if sev = CRITICAL \<and> list_all ctrl_done (adsPluginControllers s1) \<and>
            list_all played (configAdBreaks s1)
         then (if adPlayed s1
               then s1\<lparr>allAdsCompleted := True, effects := effects s1 @ [Dispatch_ALL_ADS_COMPLETED]\<rparr>
               else s1\<lparr>allAdsCompleted := True\<rparr>)
         else s1)"

definition handleConfiguredPostroll :: "adsController \<Rightarrow> adsController" where
  "handleConfiguredPostroll s =
     (if 0 \<le> findIndex (\<lambda>b. \<not> played b \<and> position b = Num (- 1)) (configAdBreaks s)
      then playConfigAdBreak (nat (findIndex (\<lambda>b. \<not> played b \<and> position b = Num (- 1)) (configAdBreaks s)))
             (s\<lparr>configAdBreaks := map (\<lambda>b. b\<lparr>played := True\<rparr>) (configAdBreaks s)\<rparr>)
      else s)"

text \<open>
  The callback given to \<open>bumperCompletePromise.finally\<close>: with a primary controller it asks
  that controller to finish and leaves the second callback waiting; without one it does
  nothing.
\<close>

definition bumperFinally :: "string option \<Rightarrow> adsController \<Rightarrow> adsController" where
  "bumperFinally adCtrl s =
     (case adCtrl of
        Some n \<Rightarrow> s\<lparr>effects := effects s @ [OnPlaybackEnded n], pending := pending s @ [PrimaryFinally]\<rparr>
      | None \<Rightarrow> s)"

text \<open>
  \<open>_onEnded\<close>. With a bumper controller the first callback waits for the promise of its
  \<open>onPlaybackEnded()\<close>; without one the promise is \<open>Promise.resolve()\<close>, already settled,
  and the callback runs before any other event is handled.
\<close>

definition onEnded :: "adsController \<Rightarrow> adsController" where
  "onEnded s =
     (if adIsLoading s then s
      else if Num (- 1) \<notin> set (adBreaksLayout s) then s\<lparr>allAdsCompleted := True\<rparr>
      else
        (let adCtrl = map_option ctrl_name (find (\<lambda>c. \<not> isBumper c) (adsPluginControllers s))
         in case find isBumper (adsPluginControllers s) of
              Some b \<Rightarrow>
                s\<lparr>effects := effects s @ [OnPlaybackEnded (ctrl_name b)],
                  pending := pending s @ [BumperFinally adCtrl]\<rparr>
            | None \<Rightarrow> bumperFinally adCtrl s))"

text \<open>\<open>_reset\<close>: the subscriptions are dropped and made again by \<open>_init\<close>.\<close>

definition reset :: "adsController \<Rightarrow> adsController" where
  "reset s = init s"

text \<open>The promise of the \<open>k\<close>-th waiting callback settles: the callback runs and is no longer waiting.\<close>

definition promiseSettled :: "nat \<Rightarrow> adsController \<Rightarrow> adsController" where
  "promiseSettled k s =
     (if k < length (pending s) then
        (case pending s ! k of
           BumperFinally adCtrl \<Rightarrow>
             bumperFinally adCtrl (s\<lparr>pending := take k (pending s) @ drop (Suc k) (pending s)\<rparr>)
         | PrimaryFinally \<Rightarrow>
             handleConfiguredPostroll (s\<lparr>pending := take k (pending s) @ drop (Suc k) (pending s)\<rparr>))
      else s)"

subsection \<open>Runs of the scheduler\<close>

text \<open>
  What can happen to a scheduler: one of its listeners is called with a notification, a
  promise it waits for settles, a public method is called, or the player and the plugin
  controllers change what they report (the names of the controllers are fixed). The
  subscriptions themselves, made by \<open>_addBindings\<close> and \<open>_handleConfiguredMidrolls\<close> and
  dropped by \<open>_reset\<close>, are not part of the state: a run may call any listener at any
  time, so the runs below include every run of the program, whichever notifications the
  registry delivers.
\<close>

datatype event =
    AD_MANIFEST_LOADED "number list"
  | AD_BREAK_START nat
  | AD_LOADED nat
  | AD_STARTED nat
  | AD_BREAK_END
  | ADS_COMPLETED
  | AD_ERROR severity
  | PLAYER_RESET
  | ENDED
  | TIME_UPDATE
  | SEEKED
  | PromiseSettled nat
  | CallPlayAdNow "pkAdObject list"
  | CallSkipAd
  | PlayerChanged player
  | ControllerChanged nat bool bool

fun step :: "event \<Rightarrow> adsController \<Rightarrow> adsController" where
  "step (AD_MANIFEST_LOADED ps) s = onAdManifestLoaded ps s"
| "step (AD_BREAK_START b) s = onAdBreakStart b s"
| "step (AD_LOADED a) s = onAdLoaded a s"
| "step (AD_STARTED a) s = onAdStarted a s"
| "step AD_BREAK_END s = onAdBreakEnd s"
| "step ADS_COMPLETED s = onAdsCompleted s"
| "step (AD_ERROR sev) s = onAdError sev s"
| "step PLAYER_RESET s = reset s"
| "step ENDED s = onEnded s"
| "step TIME_UPDATE s = onTimeUpdate s"
| "step SEEKED s = onSeeked s"
| "step (PromiseSettled k) s = promiseSettled k s"
| "step (CallPlayAdNow adPod) s = playAdNow adPod s"
| "step CallSkipAd s = skipAd s"
| "step (PlayerChanged p) s = s\<lparr>player := p\<rparr>"
| "step (ControllerChanged i a d) s =
     (if i < length (adsPluginControllers s)
      then s\<lparr>adsPluginControllers :=
               (adsPluginControllers s)[i := (adsPluginControllers s ! i)\<lparr>ctrl_active := a, ctrl_done := d\<rparr>]\<rparr>
      else s)"

definition run :: "event list \<Rightarrow> adsController \<Rightarrow> adsController" where
  "run es s = fold step es s"

section \<open>Notions used to state the properties\<close>

text \<open>The bindings the registry holds, as addresses.\<close>

definition storedBindings :: "eventManager \<Rightarrow> ref list" where
  "storedBindings w = (case bindingMap w of Some m \<Rightarrow> mm_getAll m | None \<Rightarrow> [])"

text \<open>
  What holds of a registry after any calls of \<open>listen\<close> and \<open>unlisten\<close>: the map exists
  and has each key once; a binding stored under a key exists and has that key as its
  type; a binding that holds a target holds a listener, is stored, and its only call so
  far attached that listener to that target for its type; a binding whose \<open>target\<close> is
  null holds no listener, is not stored, and has made two calls, the second of which
  detached what the first attached; every recorded call was made by an existing binding.
\<close>

definition registryInv :: "eventManager \<Rightarrow> bool" where
  "registryInv w \<longleftrightarrow>
     (case bindingMap w of
        None \<Rightarrow> False
      | Some m \<Rightarrow>
          distinct (map fst m) \<and>
          (\<forall>(k, vs) \<in> set m. \<forall>a \<in> set vs. a < length (heap w) \<and> type (heap w ! a) = k) \<and>
          (\<forall>a < length (heap w).
             (case target (heap w ! a) of
                Some t \<Rightarrow>
                  (\<exists>l. listener (heap w ! a) = Some l \<and>
                       callsOf a w = [AddEventListener t (type (heap w ! a)) l]) \<and>
                  a \<in> set (mm_getAll m)
              | None \<Rightarrow>
                  listener (heap w ! a) = None \<and>
                  (\<exists>t l. callsOf a w =
                     [AddEventListener t (type (heap w ! a)) l,
                      RemoveEventListener t (type (heap w ! a)) (Some l)]) \<and>
                  a \<notin> set (mm_getAll m))) \<and>
          (\<forall>(b, c) \<in> set (calls w). b < length (heap w)))"

text \<open>
  Two facts hold of every state a scheduler can be in: when no configured break has the
  position \<open>NaN\<close>, the configured breaks are in ascending order of position; and
  \<open>snapback\<close> is a number that is not negative.
\<close>

definition schedulerInv :: "adsController \<Rightarrow> bool" where
  "schedulerInv s \<longleftrightarrow>
     (NaN \<notin> position ` set (configAdBreaks s) \<longrightarrow>
        sorted_wrt lessEqNum (map position (configAdBreaks s))) \<and>
     lessEqNum (Num 0) (snapback s)"


text \<open>
  The breaks that are due at a time-progress notification, in the words of the
  specification: not yet played, positioned at or before the current time and strictly
  after \<open>snapback\<close>. They are given as indices into \<open>_configAdBreaks\<close>, ascending.
\<close>

definition dueBySpec :: "adsController \<Rightarrow> nat list" where
  "dueBySpec s =
     filter (\<lambda>i. \<not> played (configAdBreaks s ! i) \<and>
                 isNumber (currentTime (player s)) \<and>
                 lessEqNum (position (configAdBreaks s ! i)) (toNumber (currentTime (player s))) \<and>
                 lessNum (snapback s) (position (configAdBreaks s ! i)))
       [0 ..< length (configAdBreaks s)]"


text \<open>A request to a controller to finish its playback (\<open>onPlaybackEnded()\<close>).\<close>

definition isOnPlaybackEnded :: "effect \<Rightarrow> bool" where
  "isOnPlaybackEnded e = (case e of OnPlaybackEnded _ \<Rightarrow> True | _ \<Rightarrow> False)"

text \<open>
  The postroll has been handled: a configured break at \<open>-1\<close> is played. Ingestion never
  pre-plays such a break, and handling the postroll, when it does anything, marks every
  configured break played.
\<close>

definition postrollPlayed :: "adsController \<Rightarrow> bool" where
  "postrollPlayed s \<longleftrightarrow> list_ex (\<lambda>b. position b = Num (- 1) \<and> played b) (configAdBreaks s)"

text \<open>
  Positions in a run \<open>es\<close> that starts in the state \<open>s0\<close>: the state in which the event
  at position \<open>i\<close> arrives.
\<close>

definition stateBefore :: "event list \<Rightarrow> adsController \<Rightarrow> nat \<Rightarrow> adsController" where
  "stateBefore es s0 i = run (take i es) s0"

text \<open>
  The event at position \<open>j\<close> is a media-ended notification that makes the handler ask the
  bumper controller to finish: no ad is loading, the layout has a postroll, and a bumper
  controller is registered.
\<close>

definition bumperAsked :: "event list \<Rightarrow> adsController \<Rightarrow> nat \<Rightarrow> bool" where
  "bumperAsked es s0 j \<longleftrightarrow>
     j < length es \<and> es ! j = ENDED \<and>
     \<not> adIsLoading (stateBefore es s0 j) \<and>
     Num (- 1) \<in> set (adBreaksLayout (stateBefore es s0 j)) \<and>
     find isBumper (adsPluginControllers (stateBefore es s0 j)) \<noteq> None"

text \<open>
  The event at position \<open>j\<close> is a media-ended notification that makes the handler ask the
  primary controller to finish at once: no ad is loading, the layout has a postroll, no
  bumper controller is registered and a primary controller is.
\<close>

definition primaryAskedAtEnded :: "event list \<Rightarrow> adsController \<Rightarrow> nat \<Rightarrow> bool" where
  "primaryAskedAtEnded es s0 j \<longleftrightarrow>
     j < length es \<and> es ! j = ENDED \<and>
     \<not> adIsLoading (stateBefore es s0 j) \<and>
     Num (- 1) \<in> set (adBreaksLayout (stateBefore es s0 j)) \<and>
     find isBumper (adsPluginControllers (stateBefore es s0 j)) = None \<and>
     find (\<lambda>c. \<not> isBumper c) (adsPluginControllers (stateBefore es s0 j)) \<noteq> None"

text \<open>
  The event at position \<open>j\<close> is the settling of a bumper's promise whose callback has a
  primary controller to ask, and the bumper was asked to finish at an earlier position.
\<close>

definition primaryAskedAfterBumper :: "event list \<Rightarrow> adsController \<Rightarrow> nat \<Rightarrow> bool" where
  "primaryAskedAfterBumper es s0 j \<longleftrightarrow>
     j < length es \<and>
     (case es ! j of
        PromiseSettled k \<Rightarrow>
          k < length (pending (stateBefore es s0 j)) \<and>
          (case pending (stateBefore es s0 j) ! k of
             BumperFinally (Some n) \<Rightarrow> True
           | _ \<Rightarrow> False)
      | _ \<Rightarrow> False) \<and>
     list_ex (bumperAsked es s0) [0 ..< j]"

definition primaryAsked :: "event list \<Rightarrow> adsController \<Rightarrow> nat \<Rightarrow> bool" where
  "primaryAsked es s0 j \<longleftrightarrow> primaryAskedAtEnded es s0 j \<or> primaryAskedAfterBumper es s0 j"

text \<open>
  The event at position \<open>i\<close> is the settling of a primary controller's promise, and the
  primary controller was asked to finish at an earlier position.
\<close>

definition postrollAfterPrimary :: "event list \<Rightarrow> adsController \<Rightarrow> nat \<Rightarrow> bool" where
  "postrollAfterPrimary es s0 i \<longleftrightarrow>
     i < length es \<and>
     (case es ! i of
        PromiseSettled k \<Rightarrow>
          k < length (pending (stateBefore es s0 i)) \<and>
          pending (stateBefore es s0 i) ! k = PrimaryFinally
      | _ \<Rightarrow> False) \<and>
     list_ex (primaryAsked es s0) [0 ..< i]"

text \<open>
  The first callback of postroll handling in the words of the specification, for
  comparison with \<open>bumperFinally\<close>: "If either finish step is unavailable (no such
  controller), treat it as already resolved", so without a primary controller the
  postroll break is dispatched at once.
\<close>

definition bumperFinallyBySpec :: "string option \<Rightarrow> adsController \<Rightarrow> adsController" where
  "bumperFinallyBySpec adCtrl s =
     (case adCtrl of
        Some n \<Rightarrow> s\<lparr>effects := effects s @ [OnPlaybackEnded n], pending := pending s @ [PrimaryFinally]\<rparr>
      | None \<Rightarrow> handleConfiguredPostroll s)"

section \<open>Scenarios\<close>

text \<open>
  Two listeners of target 1 and one of target 2 for the same event type, and a listener
  of target 1 for another type.
\<close>

definition calls_example :: "registryCall list" where
  "calls_example = [Listen 1 ''play'' 7, Listen 1 ''play'' 8, Listen 2 ''play'' 9, Listen 1 ''pause'' 7]"

text \<open>A configured break at a whole second, and a player that is playing at a given time.\<close>

definition breakAt :: "int \<Rightarrow> pkAdObject list \<Rightarrow> pkAdBreakObject" where
  "breakAt p a = \<lparr>cfg_position = Number (Num p), cfg_ads = a\<rparr>"

definition playerAt :: "playerConfig \<Rightarrow> int \<Rightarrow> player" where
  "playerAt c t = \<lparr>config = c, paused = False, currentTime = Number (Num t)\<rparr>"

text \<open>
  Breaks configured at positions 0, 10, 20 and -1 (the postroll), with
  \<open>playAdsAfterTime = 5\<close>.
\<close>

definition config_0_10_20_post :: playerConfig where
  "config_0_10_20_post =
     \<lparr>playAdsAfterTime = Number (Num 5), startTime = Undefined,
      adBreaks = [breakAt 0 [''pre''], breakAt 10 [''mid1''], breakAt 20 [''mid2''],
                  breakAt (- 1) [''post'']]\<rparr>"

text \<open>A primary (non-bumper) controller and a bumper controller, neither active nor done.\<close>

definition ima :: adsPluginController where
  "ima = \<lparr>ctrl_name = ''ima'', ctrl_active = False, ctrl_done = False\<rparr>"

definition bumper :: adsPluginController where
  "bumper = \<lparr>ctrl_name = ''bumper'', ctrl_active = False, ctrl_done = False\<rparr>"

text \<open>Midrolls configured at 5 and 15, nothing pre-played.\<close>

definition config_5_15 :: playerConfig where
  "config_5_15 =
     \<lparr>playAdsAfterTime = Undefined, startTime = Undefined,
      adBreaks = [breakAt 5 [''mid5''], breakAt 15 [''mid15'']]\<rparr>"

text \<open>Midrolls configured at 2 and 10 and a postroll; no configured break at all.\<close>

definition config_2_10_post :: playerConfig where
  "config_2_10_post =
     \<lparr>playAdsAfterTime = Undefined, startTime = Undefined,
      adBreaks = [breakAt 2 [''mid2''], breakAt 10 [''mid10''], breakAt (- 1) [''post'']]\<rparr>"

definition config_none :: playerConfig where
  "config_none = \<lparr>playAdsAfterTime = Undefined, startTime = Undefined, adBreaks = []\<rparr>"


text \<open>Breaks configured, in this order, at 10, at \<open>NaN\<close> and at 5.\<close>

definition config_10_nan_5 :: playerConfig where
  "config_10_nan_5 =
     \<lparr>playAdsAfterTime = Undefined, startTime = Undefined,
      adBreaks = [breakAt 10 [''mid10''], \<lparr>cfg_position = Number NaN, cfg_ads = [''nan'']\<rparr>,
                  breakAt 5 [''mid5'']]\<rparr>"

section \<open>The binding registry\<close>

subsection \<open>Detaching a binding\<close>

lemma Binding_unlisten_bindingMap [simp]: "bindingMap (Binding_unlisten a w) = bindingMap w"
  by (simp add: Binding_unlisten_def split: option.splits)

lemma Binding_unlisten_length [simp]: "length (heap (Binding_unlisten a w)) = length (heap w)"
  by (simp add: Binding_unlisten_def split: option.splits)

lemma Binding_unlisten_other: "b \<noteq> a \<Longrightarrow> heap (Binding_unlisten a w) ! b = heap w ! b"
  by (simp add: Binding_unlisten_def split: option.splits)

lemma Binding_unlisten_type [simp]: "type (heap (Binding_unlisten a w) ! b) = type (heap w ! b)"
  by (cases "b = a") (auto simp: Binding_unlisten_def split: option.splits)

lemma Binding_unlisten_target:
  "a < length (heap w) \<Longrightarrow> target (heap (Binding_unlisten a w) ! a) = None"
  by (simp add: Binding_unlisten_def split: option.splits)

lemma Binding_unlisten_listener:
  "a < length (heap w) \<Longrightarrow> target (heap w ! a) \<noteq> None \<or> listener (heap w ! a) = None \<Longrightarrow>
   listener (heap (Binding_unlisten a w) ! a) = None"
  by (auto simp: Binding_unlisten_def split: option.splits)

lemma Binding_unlisten_callsOf:
  "callsOf b (Binding_unlisten a w) =
     callsOf b w @
       (if b = a \<and> a < length (heap w) \<and> target (heap w ! a) \<noteq> None
        then [RemoveEventListener (the (target (heap w ! a))) (type (heap w ! a)) (listener (heap w ! a))]
        else [])"
  by (auto simp: Binding_unlisten_def callsOf_def split: option.splits)

lemma Binding_unlisten_calls:
  "\<forall>(b, c) \<in> set (calls w). b < length (heap w) \<Longrightarrow>
   \<forall>(b, c) \<in> set (calls (Binding_unlisten a w)). b < length (heap w)"
  by (auto simp: Binding_unlisten_def split: option.splits)

lemma Binding_unlisten_calls_prefix: "\<exists>ys. calls (Binding_unlisten a w) = calls w @ ys"
  by (simp add: Binding_unlisten_def split: option.splits)

lemma fold_unlisten_bindingMap [simp]: "bindingMap (fold Binding_unlisten as w) = bindingMap w"
  by (induction as arbitrary: w) simp_all

lemma fold_unlisten_length [simp]: "length (heap (fold Binding_unlisten as w)) = length (heap w)"
  by (induction as arbitrary: w) simp_all

lemma fold_unlisten_calls:
  "\<forall>(b, c) \<in> set (calls w). b < length (heap w) \<Longrightarrow>
   \<forall>(b, c) \<in> set (calls (fold Binding_unlisten as w)). b < length (heap w)"
proof (induction as arbitrary: w)
  case Nil
  then show ?case by simp
next
  case (Cons a as)
  have "\<forall>(b, c) \<in> set (calls (Binding_unlisten a w)). b < length (heap (Binding_unlisten a w))"
    using Binding_unlisten_calls [OF Cons.prems] by simp
  from Cons.IH [OF this] show ?case by simp
qed

lemma fold_unlisten_target:
  "b < length (heap w) \<Longrightarrow> b \<in> set as \<or> target (heap w ! b) = None \<Longrightarrow>
   target (heap (fold Binding_unlisten as w) ! b) = None"
proof (induction as arbitrary: w)
  case Nil
  then show ?case by simp
next
  case (Cons a as)
  have "target (heap (Binding_unlisten a w) ! b) = None \<or> b \<in> set as"
  proof (cases "b = a")
    case True
    then show ?thesis using Cons.prems(1) by (simp add: Binding_unlisten_target)
  next
    case False
    then show ?thesis using Cons.prems(2) by (auto simp: Binding_unlisten_other)
  qed
  then show ?case using Cons.prems(1) Cons.IH [of "Binding_unlisten a w"] by auto
qed

lemma fold_unlisten_listener:
  "b < length (heap w) \<Longrightarrow> target (heap w ! b) = None \<longrightarrow> listener (heap w ! b) = None \<Longrightarrow>
   b \<in> set as \<or> target (heap w ! b) = None \<Longrightarrow>
   listener (heap (fold Binding_unlisten as w) ! b) = None"
proof (induction as arbitrary: w)
  case Nil
  then show ?case by simp
next
  case (Cons a as)
  let ?w = "Binding_unlisten a w"
  have 1: "b < length (heap ?w)" using Cons.prems(1) by simp
  have 2: "target (heap ?w ! b) = None \<longrightarrow> listener (heap ?w ! b) = None"
    using Cons.prems(1,2)
    by (cases "b = a") (auto simp: Binding_unlisten_other Binding_unlisten_listener)
  have 3: "b \<in> set as \<or> target (heap ?w ! b) = None"
    using Cons.prems(1,3)
    by (cases "b = a") (auto simp: Binding_unlisten_other Binding_unlisten_target)
  show ?case using Cons.IH [OF 1 2 3] by simp
qed

lemma fold_unlisten_callsOf:
  "callsOf b (fold Binding_unlisten as w) =
     callsOf b w @
       (if b \<in> set as \<and> b < length (heap w) \<and> target (heap w ! b) \<noteq> None
        then [RemoveEventListener (the (target (heap w ! b))) (type (heap w ! b)) (listener (heap w ! b))]
        else [])"
proof (induction as arbitrary: w)
  case Nil
  then show ?case by simp
next
  case (Cons a as)
  show ?case
  proof (cases "b = a")
    case True
    then show ?thesis
      using Cons.IH [of "Binding_unlisten a w"]
      by (auto simp: Binding_unlisten_callsOf Binding_unlisten_target)
  next
    case False
    then show ?thesis
      using Cons.IH [of "Binding_unlisten a w"]
      by (auto simp: Binding_unlisten_callsOf Binding_unlisten_other)
  qed
qed

lemma removeAll_bindings_idem: "removeAll_bindings (removeAll_bindings w) = removeAll_bindings w"
  by (cases "bindingMap w") (simp_all add: removeAll_bindings_def mm_clear_def mm_getAll_def)

subsection \<open>The map of bindings\<close>

lemma mm_push_keys:
  "map fst (mm_push k v m) = (if k \<in> fst ` set m then map fst m else map fst m @ [k])"
  by (auto simp: mm_push_def split: prod.splits)

lemma mm_push_entries:
  "(k', vs') \<in> set (mm_push k v m) \<Longrightarrow>
   (k', vs') \<in> set m \<or> (k' = k \<and> (\<exists>vs. vs' = vs @ [v] \<and> (k, vs) \<in> set m)) \<or> (k' = k \<and> vs' = [v])"
  by (auto simp: mm_push_def split: if_splits)

lemma mm_push_getAll: "set (mm_getAll (mm_push k v m)) = insert v (set (mm_getAll m))"
proof (cases "k \<in> fst ` set m")
  case False
  then show ?thesis by (simp add: mm_push_def mm_getAll_def)
next
  case True
  have "set (concat (map snd (map (\<lambda>(k', vs). if k' = k then (k', vs @ [v]) else (k', vs)) m))) =
        (if k \<in> fst ` set m then insert v (set (concat (map snd m))) else set (concat (map snd m)))"
    by (induction m) (auto split: if_splits)
  then show ?thesis using True by (simp add: mm_push_def mm_getAll_def)
qed

lemma mm_remove_keys [simp]: "map fst (mm_remove k v m) = map fst m"
  by (induction m) (auto simp: mm_remove_def)

lemma mm_remove_entries:
  "(k', vs') \<in> set (mm_remove k v m) \<Longrightarrow>
   \<exists>vs. (k', vs) \<in> set m \<and> set vs' \<subseteq> set vs \<and> (k' = k \<longrightarrow> v \<notin> set vs')"
  by (auto simp: mm_remove_def split: if_splits)

lemma mm_remove_getAll:
  "\<forall>(k', vs) \<in> set m. v \<in> set vs \<longrightarrow> k' = k \<Longrightarrow>
   set (mm_getAll (mm_remove k v m)) = set (mm_getAll m) - {v}"
  by (induction m) (auto simp: mm_remove_def mm_getAll_def split: if_splits)

lemma mm_get_remove:
  "mm_get k' (mm_remove k v m) =
     (if k' = k then filter (\<lambda>x. x \<noteq> v) (mm_get k' m) else mm_get k' m)"
  by (induction m) (auto simp: mm_remove_def mm_get_def)

lemma mm_get_entry:
  assumes "a \<in> set (mm_get k m)"
  shows "\<exists>vs. (k, vs) \<in> set m \<and> a \<in> set vs"
proof (cases "map_of m k")
  case None
  with assms show ?thesis by (simp add: mm_get_def)
next
  case (Some vs)
  then have "(k, vs) \<in> set m" by (rule map_of_SomeD)
  moreover have "a \<in> set vs" using assms Some by (simp add: mm_get_def)
  ultimately show ?thesis by blast
qed

lemma mm_get_getAll: "a \<in> set (mm_get k m) \<Longrightarrow> a \<in> set (mm_getAll m)"
  by (drule mm_get_entry) (force simp: mm_getAll_def)

lemma mm_entry_get: "distinct (map fst m) \<Longrightarrow> (k, vs) \<in> set m \<Longrightarrow> mm_get k m = vs"
  by (simp add: mm_get_def)

lemma no_calls_of:
  "\<forall>(b, c) \<in> set cs. b < (n::nat) \<Longrightarrow> filter (\<lambda>(b, c). b = n) cs = []"
  by (induction cs) auto

subsection \<open>What every reachable registry satisfies\<close>

lemma registryInv_new: "registryInv new_EventManager"
  by (simp add: registryInv_def new_EventManager_def)

lemma registryInv_map: "registryInv w \<Longrightarrow> \<exists>m. bindingMap w = Some m"
  by (auto simp: registryInv_def split: option.splits)

lemma registryInv_keys: "registryInv w \<Longrightarrow> bindingMap w = Some m \<Longrightarrow> distinct (map fst m)"
  by (simp add: registryInv_def)

lemma registryInv_entry:
  "registryInv w \<Longrightarrow> bindingMap w = Some m \<Longrightarrow> (k, vs) \<in> set m \<Longrightarrow> a \<in> set vs \<Longrightarrow>
   a < length (heap w) \<and> type (heap w ! a) = k"
  by (fastforce simp: registryInv_def)

lemma registryInv_live:
  assumes "registryInv w" and "bindingMap w = Some m"
    and "a < length (heap w)" and "target (heap w ! a) = Some t"
  shows "(\<exists>l. listener (heap w ! a) = Some l \<and>
              callsOf a w = [AddEventListener t (type (heap w ! a)) l]) \<and>
         a \<in> set (mm_getAll m)"
proof -
  from assms(1,2) have "\<forall>a < length (heap w).
             (case target (heap w ! a) of
                Some t \<Rightarrow>
                  (\<exists>l. listener (heap w ! a) = Some l \<and>
                       callsOf a w = [AddEventListener t (type (heap w ! a)) l]) \<and>
                  a \<in> set (mm_getAll m)
              | None \<Rightarrow>
                  listener (heap w ! a) = None \<and>
                  (\<exists>t l. callsOf a w =
                     [AddEventListener t (type (heap w ! a)) l,
                      RemoveEventListener t (type (heap w ! a)) (Some l)]) \<and>
                  a \<notin> set (mm_getAll m))"
    by (simp add: registryInv_def)
  from this [rule_format, OF assms(3)] assms(4) show ?thesis by simp
qed

lemma registryInv_dead:
  assumes "registryInv w" and "bindingMap w = Some m"
    and "a < length (heap w)" and "target (heap w ! a) = None"
  shows "listener (heap w ! a) = None \<and>
         (\<exists>t l. callsOf a w =
            [AddEventListener t (type (heap w ! a)) l,
             RemoveEventListener t (type (heap w ! a)) (Some l)]) \<and>
         a \<notin> set (mm_getAll m)"
proof -
  from assms(1,2) have "\<forall>a < length (heap w).
             (case target (heap w ! a) of
                Some t \<Rightarrow>
                  (\<exists>l. listener (heap w ! a) = Some l \<and>
                       callsOf a w = [AddEventListener t (type (heap w ! a)) l]) \<and>
                  a \<in> set (mm_getAll m)
              | None \<Rightarrow>
                  listener (heap w ! a) = None \<and>
                  (\<exists>t l. callsOf a w =
                     [AddEventListener t (type (heap w ! a)) l,
                      RemoveEventListener t (type (heap w ! a)) (Some l)]) \<and>
                  a \<notin> set (mm_getAll m))"
    by (simp add: registryInv_def)
  from this [rule_format, OF assms(3)] assms(4) show ?thesis by simp
qed

lemma registryInv_calls:
  "registryInv w \<Longrightarrow> (b, c) \<in> set (calls w) \<Longrightarrow> b < length (heap w)"
  by (fastforce simp: registryInv_def split: option.splits)

lemma registryInv_I:
  assumes "bindingMap w = Some m" and "distinct (map fst m)"
    and "\<And>k vs a. (k, vs) \<in> set m \<Longrightarrow> a \<in> set vs \<Longrightarrow> a < length (heap w) \<and> type (heap w ! a) = k"
    and "\<And>a t. a < length (heap w) \<Longrightarrow> target (heap w ! a) = Some t \<Longrightarrow>
           (\<exists>l. listener (heap w ! a) = Some l \<and>
                callsOf a w = [AddEventListener t (type (heap w ! a)) l]) \<and>
           a \<in> set (mm_getAll m)"
    and "\<And>a. a < length (heap w) \<Longrightarrow> target (heap w ! a) = None \<Longrightarrow>
           listener (heap w ! a) = None \<and>
           (\<exists>t l. callsOf a w =
              [AddEventListener t (type (heap w ! a)) l,
               RemoveEventListener t (type (heap w ! a)) (Some l)]) \<and>
           a \<notin> set (mm_getAll m)"
    and "\<And>b c. (b, c) \<in> set (calls w) \<Longrightarrow> b < length (heap w)"
  shows "registryInv w"
  unfolding registryInv_def assms(1)
  using assms(2-6) by (auto split: option.splits)

lemma registryInv_listen:
  assumes inv: "registryInv w"
  shows "registryInv (listen t ty l w)"
proof -
  from registryInv_map [OF inv] obtain m where m: "bindingMap w = Some m" by blast
  note keys = registryInv_keys [OF inv m]
  note ent = registryInv_entry [OF inv m]
  note live = registryInv_live [OF inv m]
  note dead = registryInv_dead [OF inv m]
  note cls = registryInv_calls [OF inv]
  let ?n = "length (heap w)"
  let ?w = "listen t ty l w"
  have w': "?w = w\<lparr>heap := heap w @ [\<lparr>target = Some t, type = ty, listener = Some l\<rparr>],
                  calls := calls w @ [(?n, AddEventListener t ty l)],
                  bindingMap := Some (mm_push ty ?n m)\<rparr>"
    using m by (simp add: listen_def new_Binding_def)
  have "\<forall>(b, c) \<in> set (calls w). b < ?n" using cls by auto
  then have fresh: "callsOf ?n w = []" by (simp add: callsOf_def no_calls_of)
  have old: "callsOf a ?w = callsOf a w" "heap ?w ! a = heap w ! a" if "a < ?n" for a
    using that by (simp_all add: w' callsOf_def nth_append)
  have new: "callsOf ?n ?w = [AddEventListener t ty l]"
    "heap ?w ! ?n = \<lparr>target = Some t, type = ty, listener = Some l\<rparr>"
    using fresh by (simp_all add: w' callsOf_def)
  have len: "length (heap ?w) = Suc ?n" by (simp add: w')
  have stored_lt: "a < ?n" if "a \<in> set (mm_getAll m)" for a
    using that ent by (auto simp: mm_getAll_def)
  show ?thesis
  proof (rule registryInv_I)
    show "bindingMap ?w = Some (mm_push ty ?n m)" by (simp add: w')
    show "distinct (map fst (mm_push ty ?n m))" using keys by (auto simp: mm_push_keys)
    show "a < length (heap ?w) \<and> type (heap ?w ! a) = k"
      if e: "(k, vs) \<in> set (mm_push ty ?n m)" and a: "a \<in> set vs" for k vs a
    proof -
      from mm_push_entries [OF e] a ent
      have "(a < ?n \<and> type (heap w ! a) = k) \<or> (a = ?n \<and> k = ty)" by fastforce
      then show ?thesis using old(2) new(2) len by auto
    qed
    show "(\<exists>l'. listener (heap ?w ! a) = Some l' \<and>
                callsOf a ?w = [AddEventListener t' (type (heap ?w ! a)) l']) \<and>
           a \<in> set (mm_getAll (mm_push ty ?n m))"
      if "a < length (heap ?w)" "target (heap ?w ! a) = Some t'" for a t'
    proof (cases "a = ?n")
      case True
      then show ?thesis using that new by (simp add: mm_push_getAll)
    next
      case False
      then have "a < ?n" using that(1) len by simp
      then show ?thesis using live [of a t'] that(2) old [of a] by (simp add: mm_push_getAll)
    qed
    show "listener (heap ?w ! a) = None \<and>
           (\<exists>t' l'. callsOf a ?w =
              [AddEventListener t' (type (heap ?w ! a)) l',
               RemoveEventListener t' (type (heap ?w ! a)) (Some l')]) \<and>
           a \<notin> set (mm_getAll (mm_push ty ?n m))"
      if "a < length (heap ?w)" "target (heap ?w ! a) = None" for a
    proof (cases "a = ?n")
      case True
      then show ?thesis using that new by simp
    next
      case False
      then have "a < ?n" using that(1) len by simp
      then show ?thesis using dead [of a] that(2) old [of a] False by (simp add: mm_push_getAll)
    qed
    show "b < length (heap ?w)" if "(b, c) \<in> set (calls ?w)" for b c
      using that cls [of b c] by (auto simp: w')
  qed
qed

lemma detachAndRemove_length [simp]: "length (heap (detachAndRemove ty a w)) = length (heap w)"
  by (simp add: detachAndRemove_def split: option.splits)

lemma detachAndRemove_other: "b \<noteq> a \<Longrightarrow> heap (detachAndRemove ty a w) ! b = heap w ! b"
  by (simp add: detachAndRemove_def Binding_unlisten_other split: option.splits)

lemma callsOf_bindingMap_update [simp]: "callsOf b (w\<lparr>bindingMap := x\<rparr>) = callsOf b w"
  by (simp add: callsOf_def)

lemma detachAndRemove_callsOf_other: "b \<noteq> a \<Longrightarrow> callsOf b (detachAndRemove ty a w) = callsOf b w"
  by (simp add: detachAndRemove_def Binding_unlisten_callsOf split: option.splits)

lemma detachAndRemove_target:
  "a < length (heap w) \<Longrightarrow> target (heap (detachAndRemove ty a w) ! a) = None"
  by (simp add: detachAndRemove_def Binding_unlisten_target split: option.splits)

lemma detachAndRemove_type [simp]:
  "type (heap (detachAndRemove ty a w) ! b) = type (heap w ! b)"
  by (simp add: detachAndRemove_def split: option.splits)

lemma detachAndRemove_calls_prefix: "\<exists>ys. calls (detachAndRemove ty a w) = calls w @ ys"
  using Binding_unlisten_calls_prefix [of a w]
  by (auto simp: detachAndRemove_def split: option.splits)

lemma registryInv_detachAndRemove:
  assumes inv: "registryInv w" and lt: "a < length (heap w)"
    and tg: "target (heap w ! a) = Some t" and ty: "type (heap w ! a) = ty"
  shows "registryInv (detachAndRemove ty a w)"
proof -
  from registryInv_map [OF inv] obtain m where m: "bindingMap w = Some m" by blast
  note keys = registryInv_keys [OF inv m]
  note ent = registryInv_entry [OF inv m]
  note live = registryInv_live [OF inv m]
  note dead = registryInv_dead [OF inv m]
  note cls = registryInv_calls [OF inv]
  from live [OF lt tg] ty obtain l where l: "listener (heap w ! a) = Some l"
    and ca: "callsOf a w = [AddEventListener t ty l]" by auto
  let ?w = "detachAndRemove ty a w"
  let ?m = "mm_remove ty a m"
  have w': "?w = w\<lparr>calls := calls w @ [(a, RemoveEventListener t ty (Some l))],
                  heap := (heap w)[a := (heap w ! a)\<lparr>target := None, listener := None\<rparr>],
                  bindingMap := Some ?m\<rparr>"
    using m lt tg ty l by (simp add: detachAndRemove_def Binding_unlisten_def)
  have only: "\<forall>(k', vs) \<in> set m. a \<in> set vs \<longrightarrow> k' = ty"
    using ent ty by auto
  have stored: "set (mm_getAll ?m) = set (mm_getAll m) - {a}"
    by (rule mm_remove_getAll [OF only])
  have other: "callsOf b ?w = callsOf b w" "heap ?w ! b = heap w ! b" if "b \<noteq> a" for b
    using that by (simp_all add: w' callsOf_def)
  have self: "callsOf a ?w = [AddEventListener t ty l, RemoveEventListener t ty (Some l)]"
    "target (heap ?w ! a) = None" "listener (heap ?w ! a) = None" "type (heap ?w ! a) = ty"
    using ca lt ty by (simp_all add: w' callsOf_def)
  show ?thesis
  proof (rule registryInv_I)
    show "bindingMap ?w = Some ?m" by (simp add: w')
    show "distinct (map fst ?m)" using keys by simp
    show "b < length (heap ?w) \<and> type (heap ?w ! b) = k"
      if e: "(k, vs) \<in> set ?m" and b: "b \<in> set vs" for k vs b
    proof -
      from mm_remove_entries [OF e] obtain vs0 where "(k, vs0) \<in> set m" "set vs \<subseteq> set vs0" by blast
      with b ent [of k vs0 b] show ?thesis by auto
    qed
    show "(\<exists>l'. listener (heap ?w ! b) = Some l' \<and>
                callsOf b ?w = [AddEventListener t' (type (heap ?w ! b)) l']) \<and>
           b \<in> set (mm_getAll ?m)"
      if "b < length (heap ?w)" "target (heap ?w ! b) = Some t'" for b t'
    proof -
      have ne: "b \<noteq> a" using that(2) self(2) by auto
      then show ?thesis using live [of b t'] that other [OF ne] stored by simp
    qed
    show "listener (heap ?w ! b) = None \<and>
           (\<exists>t' l'. callsOf b ?w =
              [AddEventListener t' (type (heap ?w ! b)) l',
               RemoveEventListener t' (type (heap ?w ! b)) (Some l')]) \<and>
           b \<notin> set (mm_getAll ?m)"
      if "b < length (heap ?w)" "target (heap ?w ! b) = None" for b
    proof (cases "b = a")
      case True
      then show ?thesis using self stored by auto
    next
      case False
      then show ?thesis using dead [of b] that other [OF False] stored by simp
    qed
    show "b < length (heap ?w)" if "(b, c) \<in> set (calls ?w)" for b c
      using that cls [of b c] lt by (auto simp: w')
  qed
qed

lemma unlisten_loop_length [simp]: "length (heap (unlisten_loop t ty as w)) = length (heap w)"
  by (induction as arbitrary: w) simp_all

lemma unlisten_loop_type [simp]: "type (heap (unlisten_loop t ty as w) ! b) = type (heap w ! b)"
  by (induction as arbitrary: w) simp_all

lemma unlisten_loop_calls_prefix: "\<exists>ys. calls (unlisten_loop t ty as w) = calls w @ ys"
proof (induction as arbitrary: w)
  case Nil
  then show ?case by simp
next
  case (Cons a as)
  let ?w = "if a < length (heap w) \<and> target (heap w ! a) = Some t then detachAndRemove ty a w else w"
  have "\<exists>ys. calls ?w = calls w @ ys"
    using detachAndRemove_calls_prefix [of ty a w] by (cases "a < length (heap w) \<and> target (heap w ! a) = Some t") auto
  then obtain ys where "calls ?w = calls w @ ys" by blast
  moreover from Cons.IH [of ?w] obtain zs where "calls (unlisten_loop t ty as ?w) = calls ?w @ zs"
    by blast
  ultimately show ?case by simp
qed

lemma registryInv_unlisten_loop:
  "registryInv w \<Longrightarrow> \<forall>a \<in> set as. type (heap w ! a) = ty \<Longrightarrow>
   registryInv (unlisten_loop t ty as w)"
proof (induction as arbitrary: w)
  case Nil
  then show ?case by simp
next
  case (Cons a as)
  let ?w = "if a < length (heap w) \<and> target (heap w ! a) = Some t then detachAndRemove ty a w else w"
  have "registryInv ?w"
    using Cons.prems by (auto intro: registryInv_detachAndRemove)
  moreover have "\<forall>b \<in> set as. type (heap ?w ! b) = ty" using Cons.prems(2) by simp
  ultimately show ?case using Cons.IH [of ?w] by simp
qed

lemma registryInv_unlisten: "registryInv w \<Longrightarrow> registryInv (unlisten t ty w)"
proof -
  assume inv: "registryInv w"
  from registryInv_map [OF inv] obtain m where m: "bindingMap w = Some m" by blast
  have "\<forall>a \<in> set (mm_get ty m). type (heap w ! a) = ty"
  proof
    fix a assume "a \<in> set (mm_get ty m)"
    then obtain vs where "(ty, vs) \<in> set m" "a \<in> set vs" using mm_get_entry by blast
    then show "type (heap w ! a) = ty" using registryInv_entry [OF inv m] by blast
  qed
  with inv m show ?thesis by (simp add: unlisten_def registryInv_unlisten_loop)
qed

lemma registryInv_step: "registryInv w \<Longrightarrow> registryInv (registryStep c w)"
  by (cases c) (simp_all add: registryInv_listen registryInv_unlisten)

lemma registryRun_snoc: "registryRun (cs @ [c]) = registryStep c (registryRun cs)"
  by (simp add: registryRun_def)

lemma registryInv_run: "registryInv (registryRun cs)"
proof (induction cs rule: rev_induct)
  case Nil
  then show ?case by (simp add: registryRun_def registryInv_new)
next
  case (snoc c cs)
  then show ?case by (simp add: registryRun_snoc registryInv_step)
qed

lemma unlisten_loop_detached:
  "target (heap w ! a) = None \<Longrightarrow> target (heap (unlisten_loop t ty as w) ! a) = None"
proof (induction as arbitrary: w)
  case Nil
  then show ?case by simp
next
  case (Cons x as)
  let ?w = "if x < length (heap w) \<and> target (heap w ! x) = Some t then detachAndRemove ty x w else w"
  have "heap ?w ! a = heap w ! a"
  proof (cases "x < length (heap w) \<and> target (heap w ! x) = Some t")
    case True
    then have "x \<noteq> a" using Cons.prems by auto
    then show ?thesis using True by (simp add: detachAndRemove_other)
  next
    case False
    then show ?thesis by auto
  qed
  then have "target (heap ?w ! a) = None" using Cons.prems by simp
  then show ?case using Cons.IH [of ?w] by simp
qed

lemma unlisten_loop_matching:
  "a \<in> set as \<Longrightarrow> a < length (heap w) \<Longrightarrow> target (heap w ! a) = Some t \<Longrightarrow>
   target (heap (unlisten_loop t ty as w) ! a) = None"
proof (induction as arbitrary: w)
  case Nil
  then show ?case by simp
next
  case (Cons x as)
  let ?w = "if x < length (heap w) \<and> target (heap w ! x) = Some t then detachAndRemove ty x w else w"
  show ?case
  proof (cases "x = a")
    case True
    then have "target (heap ?w ! a) = None" using Cons.prems by (simp add: detachAndRemove_target)
    then show ?thesis using unlisten_loop_detached [of ?w a t ty as] by simp
  next
    case False
    then have "a \<in> set as" "a < length (heap ?w)" "target (heap ?w ! a) = Some t"
      using Cons.prems by (auto simp: detachAndRemove_other)
    then show ?thesis using Cons.IH [of ?w] by simp
  qed
qed

lemma unlisten_loop_untouched:
  "\<not> (a \<in> set as \<and> target (heap w ! a) = Some t) \<Longrightarrow>
   heap (unlisten_loop t ty as w) ! a = heap w ! a \<and>
   callsOf a (unlisten_loop t ty as w) = callsOf a w"
proof (induction as arbitrary: w)
  case Nil
  then show ?case by simp
next
  case (Cons x as)
  let ?w = "if x < length (heap w) \<and> target (heap w ! x) = Some t then detachAndRemove ty x w else w"
  have same: "heap ?w ! a = heap w ! a \<and> callsOf a ?w = callsOf a w"
  proof (cases "x < length (heap w) \<and> target (heap w ! x) = Some t")
    case True
    then have "x \<noteq> a" using Cons.prems by auto
    then show ?thesis using True by (simp add: detachAndRemove_other detachAndRemove_callsOf_other)
  next
    case False
    then show ?thesis by auto
  qed
  then have "\<not> (a \<in> set as \<and> target (heap ?w ! a) = Some t)" using Cons.prems by auto
  then show ?case using Cons.IH [of ?w] same by simp
qed

lemma unlisten_loop_noop:
  "\<forall>a \<in> set as. \<not> (a < length (heap w) \<and> target (heap w ! a) = Some t) \<Longrightarrow>
   unlisten_loop t ty as w = w"
  by (induction as arbitrary: w) auto

lemma detachAndRemove_bindingMap:
  "bindingMap w = Some m \<Longrightarrow> bindingMap (detachAndRemove ty a w) = Some (mm_remove ty a m)"
  by (simp add: detachAndRemove_def)

lemma unlisten_loop_map:
  "bindingMap w = Some m \<Longrightarrow>
   \<exists>m'. bindingMap (unlisten_loop t ty as w) = Some m' \<and>
     (\<forall>k. mm_get k m' =
        (if k = ty
         then filter (\<lambda>x. \<not> (x \<in> set as \<and> x < length (heap w) \<and> target (heap w ! x) = Some t))
                (mm_get k m)
         else mm_get k m))"
proof (induction as arbitrary: w m)
  case Nil
  then show ?case by simp
next
  case (Cons a as)
  show ?case
  proof (cases "a < length (heap w) \<and> target (heap w ! a) = Some t")
    case True
    let ?w = "detachAndRemove ty a w"
    have bm: "bindingMap ?w = Some (mm_remove ty a m)"
      using Cons.prems by (rule detachAndRemove_bindingMap)
    from Cons.IH [OF bm] obtain m' where m': "bindingMap (unlisten_loop t ty as ?w) = Some m'"
      and g: "\<forall>k. mm_get k m' =
        (if k = ty
         then filter (\<lambda>x. \<not> (x \<in> set as \<and> x < length (heap ?w) \<and> target (heap ?w ! x) = Some t))
                (mm_get k (mm_remove ty a m))
         else mm_get k (mm_remove ty a m))" by blast
    have tga: "target (heap ?w ! a) = None" using True by (simp add: detachAndRemove_target)
    have "mm_get k m' =
        (if k = ty
         then filter (\<lambda>x. \<not> (x \<in> set (a # as) \<and> x < length (heap w) \<and> target (heap w ! x) = Some t))
                (mm_get k m)
         else mm_get k m)" for k
    proof (cases "k = ty")
      case False
      then show ?thesis using g by (simp add: mm_get_remove)
    next
      case k: True
      have "filter (\<lambda>x. \<not> (x \<in> set as \<and> x < length (heap ?w) \<and> target (heap ?w ! x) = Some t))
              (filter (\<lambda>x. x \<noteq> a) (mm_get ty m)) =
            filter (\<lambda>x. \<not> (x \<in> set (a # as) \<and> x < length (heap w) \<and> target (heap w ! x) = Some t))
              (mm_get ty m)"
        unfolding filter_filter
      proof (rule filter_cong [OF refl])
        fix x assume "x \<in> set (mm_get ty m)"
        show "(x \<noteq> a \<and> \<not> (x \<in> set as \<and> x < length (heap ?w) \<and> target (heap ?w ! x) = Some t)) =
              (\<not> (x \<in> set (a # as) \<and> x < length (heap w) \<and> target (heap w ! x) = Some t))"
        proof (cases "x = a")
          case True
          then show ?thesis using \<open>a < length (heap w) \<and> target (heap w ! a) = Some t\<close> by simp
        next
          case False
          then show ?thesis by (simp add: detachAndRemove_other)
        qed
      qed
      then show ?thesis using g k by (simp add: mm_get_remove)
    qed
    then show ?thesis using m' True by auto
  next
    case False
    from Cons.IH [OF Cons.prems] obtain m' where m': "bindingMap (unlisten_loop t ty as w) = Some m'"
      and g: "\<forall>k. mm_get k m' =
        (if k = ty
         then filter (\<lambda>x. \<not> (x \<in> set as \<and> x < length (heap w) \<and> target (heap w ! x) = Some t))
                (mm_get k m)
         else mm_get k m)" by blast
    have "filter (\<lambda>x. \<not> (x \<in> set as \<and> x < length (heap w) \<and> target (heap w ! x) = Some t)) xs =
          filter (\<lambda>x. \<not> (x \<in> set (a # as) \<and> x < length (heap w) \<and> target (heap w ! x) = Some t)) xs"
      for xs using False by (intro filter_cong [OF refl]) auto
    then show ?thesis using m' g False by auto
  qed
qed

subsection \<open>Unlisten\<close>

lemma callsOf_prefix:
  "calls w' = calls w @ ys \<Longrightarrow> \<exists>zs. callsOf a w' = callsOf a w @ zs"
  by (simp add: callsOf_def)

lemma unlisten_calls_prefix: "\<exists>ys. calls (unlisten t ty w) = calls w @ ys"
  using unlisten_loop_calls_prefix by (auto simp: unlisten_def split: option.splits)

lemma unlisten_heap_length [simp]: "length (heap (unlisten t ty w)) = length (heap w)"
  by (simp add: unlisten_def split: option.splits)

lemma stored_facts:
  assumes inv: "registryInv w" and st: "a \<in> set (storedBindings w)"
  shows "a < length (heap w)" and "target (heap w ! a) \<noteq> None"
    and "\<exists>m. bindingMap w = Some m \<and> a \<in> set (mm_get (type (heap w ! a)) m)"
proof -
  from registryInv_map [OF inv] obtain m where m: "bindingMap w = Some m" by blast
  from st m have sa: "a \<in> set (mm_getAll m)" by (simp add: storedBindings_def)
  then obtain k vs where e: "(k, vs) \<in> set m" "a \<in> set vs" by (auto simp: mm_getAll_def)
  from registryInv_entry [OF inv m e] have lt: "a < length (heap w)" and k: "type (heap w ! a) = k"
    by simp_all
  show "a < length (heap w)" by (rule lt)
  show "target (heap w ! a) \<noteq> None"
    using registryInv_dead [OF inv m lt] sa by blast
  have "mm_get k m = vs" using registryInv_keys [OF inv m] e(1) by (rule mm_entry_get)
  then show "\<exists>m. bindingMap w = Some m \<and> a \<in> set (mm_get (type (heap w ! a)) m)"
    using m e k by simp
qed

lemma live_stored:
  assumes inv: "registryInv w" and lt: "a < length (heap w)" and tg: "target (heap w ! a) \<noteq> None"
  shows "a \<in> set (storedBindings w)"
proof -
  from registryInv_map [OF inv] obtain m where m: "bindingMap w = Some m" by blast
  from tg obtain t where "target (heap w ! a) = Some t" by auto
  from registryInv_live [OF inv m lt this] show ?thesis using m by (simp add: storedBindings_def)
qed

lemma unlisten_matching:
  assumes inv: "registryInv w" and st: "a \<in> set (storedBindings w)"
    and tg: "target (heap w ! a) = Some t" and ty: "type (heap w ! a) = ty"
  shows "a \<notin> set (storedBindings (unlisten t ty w)) \<and>
         target (heap (unlisten t ty w) ! a) = None \<and>
         listener (heap (unlisten t ty w) ! a) = None \<and>
         (\<exists>l. listener (heap w ! a) = Some l \<and>
              callsOf a w = [AddEventListener t ty l] \<and>
              callsOf a (unlisten t ty w) =
                [AddEventListener t ty l, RemoveEventListener t ty (Some l)])"
proof -
  let ?w = "unlisten t ty w"
  from stored_facts [OF inv st] ty obtain m where m: "bindingMap w = Some m"
    and g: "a \<in> set (mm_get ty m)" and lt: "a < length (heap w)" by auto
  from registryInv_live [OF inv m lt tg] ty obtain l where l: "listener (heap w ! a) = Some l"
    and ca: "callsOf a w = [AddEventListener t ty l]" by auto
  have tn: "target (heap ?w ! a) = None"
    using m g lt tg by (simp add: unlisten_def unlisten_loop_matching)
  have inv': "registryInv ?w" using inv by (rule registryInv_unlisten)
  from registryInv_map [OF inv'] obtain m' where m': "bindingMap ?w = Some m'" by blast
  have lt': "a < length (heap ?w)" using lt by simp
  have ty': "type (heap ?w ! a) = ty" using ty m by (simp add: unlisten_def)
  from registryInv_dead [OF inv' m' lt' tn] ty' obtain t' l' where
    ln: "listener (heap ?w ! a) = None" and ns: "a \<notin> set (mm_getAll m')"
    and ca': "callsOf a ?w = [AddEventListener t' ty l', RemoveEventListener t' ty (Some l')]"
    by auto
  from unlisten_calls_prefix [of t ty w] obtain ys where "calls ?w = calls w @ ys" by blast
  from callsOf_prefix [OF this] obtain zs where "callsOf a ?w = callsOf a w @ zs" by blast
  with ca ca' have "t' = t" "l' = l" by simp_all
  with ca' have "callsOf a ?w = [AddEventListener t ty l, RemoveEventListener t ty (Some l)]"
    by simp
  with tn ln ns l ca m' show ?thesis by (simp add: storedBindings_def)
qed

lemma unlisten_other:
  assumes inv: "registryInv w"
    and nm: "a \<in> set (storedBindings w) \<longrightarrow> \<not> (target (heap w ! a) = Some t \<and> type (heap w ! a) = ty)"
  shows "heap (unlisten t ty w) ! a = heap w ! a \<and> callsOf a (unlisten t ty w) = callsOf a w"
proof -
  from registryInv_map [OF inv] obtain m where m: "bindingMap w = Some m" by blast
  have "\<not> (a \<in> set (mm_get ty m) \<and> target (heap w ! a) = Some t)"
  proof
    assume h: "a \<in> set (mm_get ty m) \<and> target (heap w ! a) = Some t"
    then obtain vs where "(ty, vs) \<in> set m" "a \<in> set vs" using mm_get_entry by blast
    then have "type (heap w ! a) = ty" using registryInv_entry [OF inv m] by blast
    moreover have "a \<in> set (mm_getAll m)" using h mm_get_getAll by blast
    then have "a \<in> set (storedBindings w)" using m by (simp add: storedBindings_def)
    ultimately show False using nm h by simp
  qed
  then show ?thesis using m by (simp add: unlisten_def unlisten_loop_untouched)
qed

lemma unlisten_not_matching:
  assumes inv: "registryInv w" and st: "a \<in> set (storedBindings w)"
    and nm: "\<not> (target (heap w ! a) = Some t \<and> type (heap w ! a) = ty)"
  shows "a \<in> set (storedBindings (unlisten t ty w)) \<and>
         heap (unlisten t ty w) ! a = heap w ! a \<and>
         callsOf a (unlisten t ty w) = callsOf a w"
proof -
  have same: "heap (unlisten t ty w) ! a = heap w ! a \<and> callsOf a (unlisten t ty w) = callsOf a w"
    using unlisten_other [OF inv] nm by blast
  have "a < length (heap w)" "target (heap w ! a) \<noteq> None" using stored_facts [OF inv st] by auto
  then have "a < length (heap (unlisten t ty w))" "target (heap (unlisten t ty w) ! a) \<noteq> None"
    using same by simp_all
  with live_stored [OF registryInv_unlisten [OF inv]] same show ?thesis by blast
qed

lemma unlisten_stored_subset:
  assumes inv: "registryInv w"
  shows "set (storedBindings (unlisten t ty w)) \<subseteq> set (storedBindings w)"
proof
  fix a assume st: "a \<in> set (storedBindings (unlisten t ty w))"
  have inv': "registryInv (unlisten t ty w)" using inv by (rule registryInv_unlisten)
  from stored_facts [OF inv' st] have lt: "a < length (heap w)"
    and tn: "target (heap (unlisten t ty w) ! a) \<noteq> None" by auto
  from registryInv_map [OF inv] obtain m where m: "bindingMap w = Some m" by blast
  have "target (heap w ! a) \<noteq> None"
  proof
    assume "target (heap w ! a) = None"
    then have "target (heap (unlisten t ty w) ! a) = None"
      using m by (simp add: unlisten_def unlisten_loop_detached)
    with tn show False by simp
  qed
  then show "a \<in> set (storedBindings w)" using live_stored [OF inv lt] by simp
qed

lemma unlisten_none_matching:
  assumes inv: "registryInv w"
    and none: "\<forall>a \<in> set (storedBindings w). \<not> (target (heap w ! a) = Some t \<and> type (heap w ! a) = ty)"
  shows "unlisten t ty w = w"
proof -
  from registryInv_map [OF inv] obtain m where m: "bindingMap w = Some m" by blast
  have "\<not> (a < length (heap w) \<and> target (heap w ! a) = Some t)" if g: "a \<in> set (mm_get ty m)" for a
  proof -
    from g obtain vs where "(ty, vs) \<in> set m" "a \<in> set vs" using mm_get_entry by blast
    then have "type (heap w ! a) = ty" using registryInv_entry [OF inv m] by blast
    moreover have "a \<in> set (mm_getAll m)" using g by (rule mm_get_getAll)
    then have "a \<in> set (storedBindings w)" using m by (simp add: storedBindings_def)
    ultimately show ?thesis using none by blast
  qed
  then show ?thesis using m by (simp add: unlisten_def unlisten_loop_noop)
qed

lemma unlisten_map:
  assumes inv: "registryInv w"
  shows "\<exists>m m'. bindingMap w = Some m \<and> bindingMap (unlisten t ty w) = Some m' \<and>
           (\<forall>k. mm_get k m' =
              (if k = ty then filter (\<lambda>a. target (heap w ! a) \<noteq> Some t) (mm_get k m)
               else mm_get k m))"
proof -
  from registryInv_map [OF inv] obtain m where m: "bindingMap w = Some m" by blast
  from unlisten_loop_map [OF m, of t ty "mm_get ty m"] obtain m' where
    m': "bindingMap (unlisten_loop t ty (mm_get ty m) w) = Some m'"
    and g: "\<forall>k. mm_get k m' =
        (if k = ty
         then filter (\<lambda>x. \<not> (x \<in> set (mm_get ty m) \<and> x < length (heap w) \<and> target (heap w ! x) = Some t))
                (mm_get k m)
         else mm_get k m)" by blast
  have lt: "x < length (heap w)" if "x \<in> set (mm_get ty m)" for x
  proof -
    from that obtain vs where "(ty, vs) \<in> set m" "x \<in> set vs" using mm_get_entry by blast
    then show ?thesis using registryInv_entry [OF inv m] by blast
  qed
  have "filter (\<lambda>x. \<not> (x \<in> set (mm_get ty m) \<and> x < length (heap w) \<and> target (heap w ! x) = Some t))
          (mm_get ty m) =
        filter (\<lambda>a. target (heap w ! a) \<noteq> Some t) (mm_get ty m)"
    using lt by (intro filter_cong [OF refl]) auto
  with g have "\<forall>k. mm_get k m' =
              (if k = ty then filter (\<lambda>a. target (heap w ! a) \<noteq> Some t) (mm_get k m)
               else mm_get k m)" by simp
  then show ?thesis using m m' by (simp add: unlisten_def)
qed

lemma state_calls_example:
  "registryRun calls_example =
     \<lparr>bindingMap = Some [(''play'', [0, 1, 2]), (''pause'', [3])],
      heap = [\<lparr>target = Some 1, type = ''play'', listener = Some 7\<rparr>,
              \<lparr>target = Some 1, type = ''play'', listener = Some 8\<rparr>,
              \<lparr>target = Some 2, type = ''play'', listener = Some 9\<rparr>,
              \<lparr>target = Some 1, type = ''pause'', listener = Some 7\<rparr>],
      calls = [(0, AddEventListener 1 ''play'' 7), (1, AddEventListener 1 ''play'' 8),
               (2, AddEventListener 2 ''play'' 9), (3, AddEventListener 1 ''pause'' 7)]\<rparr>"
  by (simp add: registryRun_def calls_example_def new_EventManager_def listen_def new_Binding_def
      mm_push_def)

text \<open>
  Claim C8. Let \<open>w\<close> be any registry reached from a fresh \<open>EventManager\<close> by \<open>listen\<close> and
  \<open>unlisten\<close> calls, and \<open>t\<close>, \<open>ty\<close> any target and event type. Every stored binding of \<open>w\<close>
  whose target is \<open>t\<close> and whose type is \<open>ty\<close> is detached and removed by
  \<open>unlisten t ty\<close>: it is no longer stored, its target and listener fields are null, and the
  calls made on its behalf are exactly the \<open>addEventListener t ty l\<close> of its creation followed
  by one \<open>removeEventListener t ty l\<close> with the same target, type and listener \<open>l\<close>. Every
  other stored binding stays stored, with its object and its calls unchanged; so do the
  objects and calls of the bindings that were not stored. No binding is created, none
  becomes stored, and under every key the map holds what it held before, except that the
  bindings of target \<open>t\<close> are gone from the key \<open>ty\<close>: this covers several matching bindings
  under one type. When no stored binding matches, the registry is returned unchanged.
\<close>

theorem unlisten_detaches_every_match:
  assumes "w = registryRun cs"
  shows
  "(\<forall>a \<in> set (storedBindings w).
      (target (heap w ! a) = Some t \<and> type (heap w ! a) = ty \<longrightarrow>
         a \<notin> set (storedBindings (unlisten t ty w)) \<and>
         target (heap (unlisten t ty w) ! a) = None \<and>
         listener (heap (unlisten t ty w) ! a) = None \<and>
         (\<exists>l. listener (heap w ! a) = Some l \<and>
              callsOf a w = [AddEventListener t ty l] \<and>
              callsOf a (unlisten t ty w) =
                [AddEventListener t ty l, RemoveEventListener t ty (Some l)])) \<and>
      (\<not> (target (heap w ! a) = Some t \<and> type (heap w ! a) = ty) \<longrightarrow>
         a \<in> set (storedBindings (unlisten t ty w)) \<and>
         heap (unlisten t ty w) ! a = heap w ! a \<and>
         callsOf a (unlisten t ty w) = callsOf a w)) \<and>
   (\<forall>a. a \<notin> set (storedBindings w) \<longrightarrow>
      heap (unlisten t ty w) ! a = heap w ! a \<and> callsOf a (unlisten t ty w) = callsOf a w) \<and>
   length (heap (unlisten t ty w)) = length (heap w) \<and>
   set (storedBindings (unlisten t ty w)) \<subseteq> set (storedBindings w) \<and>
   (\<exists>m m'. bindingMap w = Some m \<and> bindingMap (unlisten t ty w) = Some m' \<and>
      (\<forall>k. mm_get k m' =
         (if k = ty then filter (\<lambda>a. target (heap w ! a) \<noteq> Some t) (mm_get k m)
          else mm_get k m))) \<and>
   ((\<forall>a \<in> set (storedBindings w). \<not> (target (heap w ! a) = Some t \<and> type (heap w ! a) = ty)) \<longrightarrow>
      unlisten t ty w = w)"
proof -
  have inv: "registryInv w" unfolding assms by (rule registryInv_run)
  have a: "\<forall>a \<in> set (storedBindings w).
      (target (heap w ! a) = Some t \<and> type (heap w ! a) = ty \<longrightarrow>
         a \<notin> set (storedBindings (unlisten t ty w)) \<and>
         target (heap (unlisten t ty w) ! a) = None \<and>
         listener (heap (unlisten t ty w) ! a) = None \<and>
         (\<exists>l. listener (heap w ! a) = Some l \<and>
              callsOf a w = [AddEventListener t ty l] \<and>
              callsOf a (unlisten t ty w) =
                [AddEventListener t ty l, RemoveEventListener t ty (Some l)])) \<and>
      (\<not> (target (heap w ! a) = Some t \<and> type (heap w ! a) = ty) \<longrightarrow>
         a \<in> set (storedBindings (unlisten t ty w)) \<and>
         heap (unlisten t ty w) ! a = heap w ! a \<and>
         callsOf a (unlisten t ty w) = callsOf a w)"
  proof (rule ballI, rule conjI)
    fix a assume st: "a \<in> set (storedBindings w)"
    show "target (heap w ! a) = Some t \<and> type (heap w ! a) = ty \<longrightarrow>
         a \<notin> set (storedBindings (unlisten t ty w)) \<and>
         target (heap (unlisten t ty w) ! a) = None \<and>
         listener (heap (unlisten t ty w) ! a) = None \<and>
         (\<exists>l. listener (heap w ! a) = Some l \<and>
              callsOf a w = [AddEventListener t ty l] \<and>
              callsOf a (unlisten t ty w) =
                [AddEventListener t ty l, RemoveEventListener t ty (Some l)])"
    proof (rule impI)
      assume h: "target (heap w ! a) = Some t \<and> type (heap w ! a) = ty"
      show "a \<notin> set (storedBindings (unlisten t ty w)) \<and>
         target (heap (unlisten t ty w) ! a) = None \<and>
         listener (heap (unlisten t ty w) ! a) = None \<and>
         (\<exists>l. listener (heap w ! a) = Some l \<and>
              callsOf a w = [AddEventListener t ty l] \<and>
              callsOf a (unlisten t ty w) =
                [AddEventListener t ty l, RemoveEventListener t ty (Some l)])"
        by (rule unlisten_matching [OF inv st conjunct1 [OF h] conjunct2 [OF h]])
    qed
    show "\<not> (target (heap w ! a) = Some t \<and> type (heap w ! a) = ty) \<longrightarrow>
         a \<in> set (storedBindings (unlisten t ty w)) \<and>
         heap (unlisten t ty w) ! a = heap w ! a \<and>
         callsOf a (unlisten t ty w) = callsOf a w"
    proof (rule impI)
      assume h: "\<not> (target (heap w ! a) = Some t \<and> type (heap w ! a) = ty)"
      show "a \<in> set (storedBindings (unlisten t ty w)) \<and>
         heap (unlisten t ty w) ! a = heap w ! a \<and>
         callsOf a (unlisten t ty w) = callsOf a w"
        by (rule unlisten_not_matching [OF inv st h])
    qed
  qed
  have b: "\<forall>a. a \<notin> set (storedBindings w) \<longrightarrow>
      heap (unlisten t ty w) ! a = heap w ! a \<and> callsOf a (unlisten t ty w) = callsOf a w"
  proof (rule allI, rule impI)
    fix a assume "a \<notin> set (storedBindings w)"
    then have "a \<in> set (storedBindings w) \<longrightarrow>
        \<not> (target (heap w ! a) = Some t \<and> type (heap w ! a) = ty)" by simp
    then show "heap (unlisten t ty w) ! a = heap w ! a \<and>
        callsOf a (unlisten t ty w) = callsOf a w"
      by (rule unlisten_other [OF inv])
  qed
  have c: "length (heap (unlisten t ty w)) = length (heap w)" by simp
  have d: "set (storedBindings (unlisten t ty w)) \<subseteq> set (storedBindings w)"
    by (rule unlisten_stored_subset [OF inv])
  note e = unlisten_map [OF inv, of t ty]
  have f: "(\<forall>a \<in> set (storedBindings w). \<not> (target (heap w ! a) = Some t \<and> type (heap w ! a) = ty)) \<longrightarrow>
      unlisten t ty w = w"
    by (rule impI) (rule unlisten_none_matching [OF inv])
  show ?thesis by (rule conjI [OF a conjI [OF b conjI [OF c conjI [OF d conjI [OF e f]]]]])
qed

theorem unlisten_detaches_every_match_witness:
  "storedBindings (registryRun calls_example) = [0, 1, 2, 3] \<and>
   target (heap (registryRun calls_example) ! 0) = Some 1 \<and>
   type (heap (registryRun calls_example) ! 0) = ''play'' \<and>
   target (heap (registryRun calls_example) ! 1) = Some 1 \<and>
   type (heap (registryRun calls_example) ! 1) = ''play'' \<and>
   target (heap (registryRun calls_example) ! 2) = Some 2 \<and>
   listener (heap (registryRun calls_example) ! 0) = Some 7 \<and>
   listener (heap (registryRun calls_example) ! 1) = Some 8 \<and>
   0 \<notin> set (storedBindings (unlisten 1 ''play'' (registryRun calls_example))) \<and>
   1 \<notin> set (storedBindings (unlisten 1 ''play'' (registryRun calls_example))) \<and>
   callsOf 0 (unlisten 1 ''play'' (registryRun calls_example)) =
     [AddEventListener 1 ''play'' 7, RemoveEventListener 1 ''play'' (Some 7)] \<and>
   callsOf 1 (unlisten 1 ''play'' (registryRun calls_example)) =
     [AddEventListener 1 ''play'' 8, RemoveEventListener 1 ''play'' (Some 8)] \<and>
   2 \<in> set (storedBindings (unlisten 1 ''play'' (registryRun calls_example))) \<and>
   callsOf 2 (unlisten 1 ''play'' (registryRun calls_example)) = [AddEventListener 2 ''play'' 9]"
proof -
  let ?w = "registryRun calls_example"
  have st: "storedBindings ?w = [0, 1, 2, 3]"
    unfolding state_calls_example by (simp add: storedBindings_def mm_getAll_def)
  have h0: "target (heap ?w ! 0) = Some 1 \<and> type (heap ?w ! 0) = ''play''"
    unfolding state_calls_example by simp
  have h1: "target (heap ?w ! 1) = Some 1 \<and> type (heap ?w ! 1) = ''play''"
    unfolding state_calls_example by simp
  have l0: "listener (heap ?w ! 0) = Some 7" unfolding state_calls_example by simp
  have l1: "listener (heap ?w ! 1) = Some 8" unfolding state_calls_example by simp
  have h2: "target (heap ?w ! 2) = Some 2" unfolding state_calls_example by simp
  have c2: "callsOf 2 ?w = [AddEventListener 2 ''play'' 9]"
    unfolding state_calls_example by (simp add: callsOf_def)
  from h2 have n2: "\<not> (target (heap ?w ! 2) = Some 1 \<and> type (heap ?w ! 2) = ''play'')" by simp
  note T = unlisten_detaches_every_match [OF refl, of calls_example 1 "''play''", THEN conjunct1]
  have m0: "0 \<in> set (storedBindings ?w)" and m1: "1 \<in> set (storedBindings ?w)"
    and m2: "2 \<in> set (storedBindings ?w)" by (simp_all add: st)
  from bspec [OF T m0, THEN conjunct1, THEN mp, OF h0] l0
  have r0: "0 \<notin> set (storedBindings (unlisten 1 ''play'' ?w)) \<and>
      callsOf 0 (unlisten 1 ''play'' ?w) =
        [AddEventListener 1 ''play'' 7, RemoveEventListener 1 ''play'' (Some 7)]"
    by auto
  from bspec [OF T m1, THEN conjunct1, THEN mp, OF h1] l1
  have r1: "1 \<notin> set (storedBindings (unlisten 1 ''play'' ?w)) \<and>
      callsOf 1 (unlisten 1 ''play'' ?w) =
        [AddEventListener 1 ''play'' 8, RemoveEventListener 1 ''play'' (Some 8)]"
    by auto
  from bspec [OF T m2, THEN conjunct2, THEN mp, OF n2] c2
  have r2: "2 \<in> set (storedBindings (unlisten 1 ''play'' ?w)) \<and>
      callsOf 2 (unlisten 1 ''play'' ?w) = [AddEventListener 2 ''play'' 9]"
    by simp
  show ?thesis using st h0 h1 h2 l0 l1 r0 r1 r2 by simp
qed

subsection \<open>RemoveAll\<close>

lemma listenCalls_snoc:
  "listenCalls (cs @ [c]) =
     listenCalls cs @ (case c of Listen t ty l \<Rightarrow> [(t, ty, l)] | Unlisten t ty \<Rightarrow> [])"
  by (induction cs rule: listenCalls.induct) (simp_all split: registryCall.splits)

lemma listen_effect:
  assumes inv: "registryInv w"
  shows "length (heap (listen t ty l w)) = Suc (length (heap w))"
    and "callsOf (length (heap w)) (listen t ty l w) = [AddEventListener t ty l]"
    and "a < length (heap w) \<Longrightarrow> callsOf a (listen t ty l w) = callsOf a w"
proof -
  from registryInv_map [OF inv] obtain m where m: "bindingMap w = Some m" by blast
  let ?n = "length (heap w)"
  let ?w = "listen t ty l w"
  have w': "?w = w\<lparr>heap := heap w @ [\<lparr>target = Some t, type = ty, listener = Some l\<rparr>],
                  calls := calls w @ [(?n, AddEventListener t ty l)],
                  bindingMap := Some (mm_push ty ?n m)\<rparr>"
    using m by (simp add: listen_def new_Binding_def)
  have "\<forall>(b, c) \<in> set (calls w). b < ?n" using registryInv_calls [OF inv] by auto
  then have fresh: "callsOf ?n w = []" by (simp add: callsOf_def no_calls_of)
  show "length (heap ?w) = Suc ?n" by (simp add: w')
  show "callsOf ?n ?w = [AddEventListener t ty l]" using fresh by (simp add: w' callsOf_def)
  show "callsOf a ?w = callsOf a w" if "a < ?n" using that by (simp add: w' callsOf_def)
qed

lemma callsOf_nonempty:
  assumes inv: "registryInv w" and lt: "a < length (heap w)"
  shows "callsOf a w \<noteq> []"
proof -
  from registryInv_map [OF inv] obtain m where m: "bindingMap w = Some m" by blast
  show ?thesis
  proof (cases "target (heap w ! a)")
    case None
    from registryInv_dead [OF inv m lt None] show ?thesis by auto
  next
    case (Some t)
    from registryInv_live [OF inv m lt Some] show ?thesis by auto
  qed
qed

lemma run_attach:
  "length (heap (registryRun cs)) = length (listenCalls cs) \<and>
   (\<forall>a < length (listenCalls cs).
      take 1 (callsOf a (registryRun cs)) =
        [case listenCalls cs ! a of (t, ty, l) \<Rightarrow> AddEventListener t ty l])"
proof (induction cs rule: rev_induct)
  case Nil
  then show ?case by (simp add: registryRun_def new_EventManager_def)
next
  case (snoc c cs)
  let ?w = "registryRun cs"
  have inv: "registryInv ?w" by (rule registryInv_run)
  from snoc have len: "length (heap ?w) = length (listenCalls cs)"
    and att: "\<And>a. a < length (listenCalls cs) \<Longrightarrow>
      take 1 (callsOf a ?w) = [case listenCalls cs ! a of (t, ty, l) \<Rightarrow> AddEventListener t ty l]"
    by simp_all
  show ?case
  proof (cases c)
    case (Listen t ty l)
    have run: "registryRun (cs @ [c]) = listen t ty l ?w" by (simp add: registryRun_snoc Listen)
    have lc: "listenCalls (cs @ [c]) = listenCalls cs @ [(t, ty, l)]"
      by (simp add: listenCalls_snoc Listen)
    have "take 1 (callsOf a (listen t ty l ?w)) =
        [case (listenCalls cs @ [(t, ty, l)]) ! a of (t, ty, l) \<Rightarrow> AddEventListener t ty l]"
      if "a < Suc (length (listenCalls cs))" for a
    proof (cases "a = length (listenCalls cs)")
      case True
      then show ?thesis using listen_effect(2) [OF inv, of t ty l] len by simp
    next
      case False
      then have lt: "a < length (listenCalls cs)" using that by simp
      then show ?thesis using listen_effect(3) [OF inv, of a t ty l] len att [OF lt]
        by (simp add: nth_append)
    qed
    then show ?thesis using listen_effect(1) [OF inv, of t ty l] len by (simp add: run lc)
  next
    case (Unlisten t ty)
    have run: "registryRun (cs @ [c]) = unlisten t ty ?w" by (simp add: registryRun_snoc Unlisten)
    have lc: "listenCalls (cs @ [c]) = listenCalls cs" by (simp add: listenCalls_snoc Unlisten)
    have "take 1 (callsOf a (unlisten t ty ?w)) =
        [case listenCalls cs ! a of (t, ty, l) \<Rightarrow> AddEventListener t ty l]"
      if lt: "a < length (listenCalls cs)" for a
    proof -
      from unlisten_calls_prefix [of t ty ?w] obtain ys where
        "calls (unlisten t ty ?w) = calls ?w @ ys" by blast
      from callsOf_prefix [OF this] obtain zs where
        z: "callsOf a (unlisten t ty ?w) = callsOf a ?w @ zs" by blast
      have "callsOf a ?w \<noteq> []" using callsOf_nonempty [OF inv] lt len by simp
      then have "take 1 (callsOf a ?w @ zs) = take 1 (callsOf a ?w)"
        by (cases "callsOf a ?w") simp_all
      then show ?thesis using z att [OF lt] by simp
    qed
    then show ?thesis using len by (simp add: run lc)
  qed
qed

lemma removeAll_bindings_eq:
  "bindingMap w = Some m \<Longrightarrow>
   removeAll_bindings w = (fold Binding_unlisten (mm_getAll m) w)\<lparr>bindingMap := Some []\<rparr>"
  by (simp add: removeAll_bindings_def mm_clear_def)

text \<open>
  Claim C7. After any sequence \<open>cs\<close> of \<open>listen\<close> and \<open>unlisten\<close> calls on a fresh
  \<open>EventManager\<close>, \<open>removeAll\<close> leaves the map empty and no binding stored. There are as
  many bindings as there were \<open>listen\<close> calls, and for the binding created by the \<open>a\<close>-th
  of them, \<open>listen t ty l\<close>, the calls made on its behalf are exactly
  \<open>addEventListener t ty l\<close> followed by one \<open>removeEventListener t ty l\<close> with the same
  target, type and listener: it was attached once and has been detached once, never twice,
  and is not left attached. Its target and listener fields are null. Every recorded call
  belongs to one of these bindings. A second \<open>removeAll\<close> changes nothing.
\<close>

theorem removeAll_detaches_each_once:
  "bindingMap (removeAll_bindings (registryRun cs)) = Some [] \<and>
   storedBindings (removeAll_bindings (registryRun cs)) = [] \<and>
   length (heap (removeAll_bindings (registryRun cs))) = length (listenCalls cs) \<and>
   (\<forall>a < length (listenCalls cs).
      callsOf a (removeAll_bindings (registryRun cs)) =
        (case listenCalls cs ! a of
           (t, ty, l) \<Rightarrow> [AddEventListener t ty l, RemoveEventListener t ty (Some l)]) \<and>
      target (heap (removeAll_bindings (registryRun cs)) ! a) = None \<and>
      listener (heap (removeAll_bindings (registryRun cs)) ! a) = None) \<and>
   (\<forall>(b, c) \<in> set (calls (removeAll_bindings (registryRun cs))). b < length (listenCalls cs)) \<and>
   removeAll_bindings (removeAll_bindings (registryRun cs)) = removeAll_bindings (registryRun cs)"
proof -
  let ?w = "registryRun cs"
  let ?r = "removeAll_bindings ?w"
  have inv: "registryInv ?w" by (rule registryInv_run)
  from registryInv_map [OF inv] obtain m where m: "bindingMap ?w = Some m" by blast
  note r = removeAll_bindings_eq [OF m]
  from run_attach [of cs] have len: "length (heap ?w) = length (listenCalls cs)"
    and att: "\<And>a. a < length (listenCalls cs) \<Longrightarrow>
      take 1 (callsOf a ?w) = [case listenCalls cs ! a of (t, ty, l) \<Rightarrow> AddEventListener t ty l]"
    by simp_all
  have 1: "bindingMap ?r = Some []" by (simp add: r)
  have 2: "storedBindings ?r = []" by (simp add: r storedBindings_def mm_getAll_def)
  have 3: "length (heap ?r) = length (listenCalls cs)" by (simp add: r len)
  have 4: "callsOf a ?r =
        (case listenCalls cs ! a of
           (t, ty, l) \<Rightarrow> [AddEventListener t ty l, RemoveEventListener t ty (Some l)]) \<and>
      target (heap ?r ! a) = None \<and> listener (heap ?r ! a) = None"
    if lt: "a < length (listenCalls cs)" for a
  proof -
    obtain t0 ty0 l0 where lc: "listenCalls cs ! a = (t0, ty0, l0)" by (cases "listenCalls cs ! a")
    have lt': "a < length (heap ?w)" using lt len by simp
    have tk: "take 1 (callsOf a ?w) = [AddEventListener t0 ty0 l0]" using att [OF lt] lc by simp
    have cr: "callsOf a ?r = callsOf a (fold Binding_unlisten (mm_getAll m) ?w)"
      by (simp add: r)
    have hr: "heap ?r = heap (fold Binding_unlisten (mm_getAll m) ?w)" by (simp add: r)
    show ?thesis
    proof (cases "target (heap ?w ! a)")
      case None
      from registryInv_dead [OF inv m lt' None] obtain t l where
        ln: "listener (heap ?w ! a) = None"
        and ca: "callsOf a ?w = [AddEventListener t (type (heap ?w ! a)) l,
             RemoveEventListener t (type (heap ?w ! a)) (Some l)]" by blast
      from ca tk have "t = t0 \<and> type (heap ?w ! a) = ty0 \<and> l = l0" by simp
      with ca have ca': "callsOf a ?w = [AddEventListener t0 ty0 l0, RemoveEventListener t0 ty0 (Some l0)]"
        by simp
      have "callsOf a ?r = callsOf a ?w" using None by (simp add: cr fold_unlisten_callsOf)
      moreover have "target (heap ?r ! a) = None"
        using None lt' by (simp add: hr fold_unlisten_target)
      moreover have "listener (heap ?r ! a) = None"
        unfolding hr by (rule fold_unlisten_listener [OF lt']) (simp_all add: None ln)
      ultimately show ?thesis using ca' lc by simp
    next
      case (Some t)
      from registryInv_live [OF inv m lt' Some] obtain l where
        ln: "listener (heap ?w ! a) = Some l"
        and ca: "callsOf a ?w = [AddEventListener t (type (heap ?w ! a)) l]"
        and sa: "a \<in> set (mm_getAll m)" by blast
      from ca tk have e: "t = t0 \<and> type (heap ?w ! a) = ty0 \<and> l = l0" by simp
      have "callsOf a ?r = [AddEventListener t0 ty0 l0, RemoveEventListener t0 ty0 (Some l0)]"
        using Some ln ca sa lt' e by (simp add: cr fold_unlisten_callsOf)
      moreover have "target (heap ?r ! a) = None"
        using sa lt' by (simp add: hr fold_unlisten_target)
      moreover have "listener (heap ?r ! a) = None"
        unfolding hr by (rule fold_unlisten_listener [OF lt']) (simp_all add: Some sa)
      ultimately show ?thesis using lc by simp
    qed
  qed
  have 5: "\<forall>(b, c) \<in> set (calls ?r). b < length (listenCalls cs)"
  proof -
    have "\<forall>(b, c) \<in> set (calls ?w). b < length (heap ?w)"
      using registryInv_calls [OF inv] by auto
    from fold_unlisten_calls [OF this, of "mm_getAll m"] show ?thesis by (simp add: r len)
  qed
  have all4: "\<forall>a < length (listenCalls cs).
      callsOf a ?r =
        (case listenCalls cs ! a of
           (t, ty, l) \<Rightarrow> [AddEventListener t ty l, RemoveEventListener t ty (Some l)]) \<and>
      target (heap ?r ! a) = None \<and> listener (heap ?r ! a) = None"
    using 4 by (intro allI impI)
  show ?thesis
    by (rule conjI [OF 1 conjI [OF 2 conjI [OF 3 conjI [OF all4 conjI [OF 5 removeAll_bindings_idem]]]]])
qed

theorem removeAll_detaches_each_once_witness:
  "length (heap (removeAll_bindings (registryRun calls_example))) = 4 \<and>
   callsOf 3 (removeAll_bindings (registryRun calls_example)) =
     [AddEventListener 1 ''pause'' 7, RemoveEventListener 1 ''pause'' (Some 7)] \<and>
   callsOf 1 (removeAll_bindings (registryRun calls_example)) =
     [AddEventListener 1 ''play'' 8, RemoveEventListener 1 ''play'' (Some 8)] \<and>
   target (heap (removeAll_bindings (registryRun calls_example)) ! 3) = None \<and>
   storedBindings (removeAll_bindings (registryRun calls_example)) = []"
proof -
  let ?r = "removeAll_bindings (registryRun calls_example)"
  note T = removeAll_detaches_each_once [of calls_example]
  have lc: "listenCalls calls_example =
      [(1, ''play'', 7), (1, ''play'', 8), (2, ''play'', 9), (1, ''pause'', 7)]"
    by (simp add: calls_example_def)
  have len: "length (heap ?r) = 4" using T by (simp add: lc)
  from T have A: "\<forall>a < length (listenCalls calls_example).
      callsOf a ?r =
        (case listenCalls calls_example ! a of
           (t, ty, l) \<Rightarrow> [AddEventListener t ty l, RemoveEventListener t ty (Some l)]) \<and>
      target (heap ?r ! a) = None \<and> listener (heap ?r ! a) = None" by blast
  have a3: "callsOf 3 ?r = [AddEventListener 1 ''pause'' 7, RemoveEventListener 1 ''pause'' (Some 7)]
      \<and> target (heap ?r ! 3) = None"
    using A [rule_format, of 3] by (simp add: lc)
  have a1: "callsOf 1 ?r = [AddEventListener 1 ''play'' 8, RemoveEventListener 1 ''play'' (Some 8)]"
    using A [rule_format, of 1] by (simp add: lc)
  moreover from T have "storedBindings ?r = []" by blast
  ultimately show ?thesis using len a3 by simp
qed

section \<open>Sorting with a comparison function\<close>

lemma mset_insertSorted: "mset (insertSorted f x ys) = add_mset x (mset ys)"
  by (induction ys) simp_all

lemma mset_sortWith: "mset (sortWith f xs) = mset xs"
  unfolding sortWith_def by (induction xs) (simp_all add: mset_insertSorted)

lemma set_sortWith: "set (sortWith f xs) = set xs"
  using mset_sortWith [of f xs] by (metis set_mset_mset)

lemma length_sortWith: "length (sortWith f xs) = length xs"
  using mset_sortWith [of f xs] by (metis size_mset)

lemma set_insertSorted: "set (insertSorted f x ys) = insert x (set ys)"
  using mset_insertSorted [of f x ys] by (metis set_mset_add_mset_insert set_mset_mset)

lemma not_NaN: "n \<noteq> NaN \<Longrightarrow> \<exists>i. n = Num i"
  by (cases n) simp_all

lemma sorted_insertSorted:
  assumes "position x \<noteq> NaN" and "NaN \<notin> position ` set ys"
    and "sorted_wrt lessEqNum (map position ys)"
  shows "sorted_wrt lessEqNum (map position (insertSorted comparePosition x ys))"
  using assms
proof (induction ys)
  case Nil
  then show ?case by simp
next
  case (Cons y ys)
  from Cons.prems obtain a b where a: "position x = Num a" and b: "position y = Num b"
    using not_NaN by (metis image_eqI list.set_intros(1))
  have rest: "\<forall>z \<in> set ys. lessEqNum (Num b) (position z)" using Cons.prems(3) b by simp
  have ih: "sorted_wrt lessEqNum (map position (insertSorted comparePosition x ys))"
    using Cons.IH Cons.prems by simp
  show ?case
  proof (cases "b < a")
    case True
    then have "insertSorted comparePosition x (y # ys) = y # insertSorted comparePosition x ys"
      by (simp add: comparePosition_def a b)
    moreover have "\<forall>z \<in> set (insertSorted comparePosition x ys). lessEqNum (position y) (position z)"
      using rest True a b by (auto simp: set_insertSorted)
    ultimately show ?thesis using ih by simp
  next
    case False
    then have e: "insertSorted comparePosition x (y # ys) = x # y # ys"
      by (simp add: comparePosition_def a b)
    have "lessEqNum (Num a) (position z)" if "z \<in> set ys" for z
    proof -
      from that Cons.prems(2) obtain c where c: "position z = Num c"
        using not_NaN by (metis image_eqI list.set_intros(2))
      with rest that have "b \<le> c" by fastforce
      with False c show ?thesis by simp
    qed
    then show ?thesis using e Cons.prems(3) False a b by simp
  qed
qed

lemma sorted_sortWith:
  "NaN \<notin> position ` set xs \<Longrightarrow> sorted_wrt lessEqNum (map position (sortWith comparePosition xs))"
proof (induction xs)
  case Nil
  then show ?case by (simp add: sortWith_def)
next
  case (Cons x xs)
  have e: "sortWith comparePosition (x # xs) = insertSorted comparePosition x (sortWith comparePosition xs)"
    by (simp add: sortWith_def)
  show ?case unfolding e
  proof (rule sorted_insertSorted)
    show "position x \<noteq> NaN" using Cons.prems by auto
    show "NaN \<notin> position ` set (sortWith comparePosition xs)"
      using Cons.prems by (simp add: set_sortWith)
    show "sorted_wrt lessEqNum (map position (sortWith comparePosition xs))"
      using Cons.IH Cons.prems by simp
  qed
qed

lemma set_ingestAdBreaks:
  "set (ingestAdBreaks c) = toRunTime (effectivePlayAdsAfterTime c) ` {b \<in> set (adBreaks c). eligible b}"
  by (simp add: ingestAdBreaks_def set_sortWith)

lemma sorted_ingestAdBreaks:
  "NaN \<notin> position ` set (ingestAdBreaks c) \<Longrightarrow>
   sorted_wrt lessEqNum (map position (ingestAdBreaks c))"
  unfolding ingestAdBreaks_def by (rule sorted_sortWith) (simp add: set_sortWith)

section \<open>Facts about every state of the scheduler\<close>

lemma playConfigAdBreak_positions:
  "map position (configAdBreaks (playConfigAdBreak i s)) = map position (configAdBreaks s)"
proof (cases "i < length (configAdBreaks s)")
  case True
  then show ?thesis
    by (auto simp: playConfigAdBreak_def playAdBreak_def map_update list_update_same_conv
        split: option.splits)
next
  case False
  then show ?thesis
    by (auto simp: playConfigAdBreak_def playAdBreak_def list_update_beyond split: option.splits)
qed

lemma playConfigAdBreak_position_set:
  "position ` set (configAdBreaks (playConfigAdBreak i s)) = position ` set (configAdBreaks s)"
  using playConfigAdBreak_positions [of i s] by (metis set_map)

lemma playConfigAdBreak_snapback: "snapback (playConfigAdBreak i s) = snapback s"
  by (auto simp: playConfigAdBreak_def playAdBreak_def split: option.splits)

lemma schedulerInv_playConfigAdBreak:
  "schedulerInv s \<Longrightarrow> schedulerInv (playConfigAdBreak i s)"
  by (simp add: schedulerInv_def playConfigAdBreak_positions playConfigAdBreak_snapback
      playConfigAdBreak_position_set)

lemma schedulerInv_init: "schedulerInv (init s)"
proof -
  let ?s1 = "(initMembers s)\<lparr>configAdBreaks := ingestAdBreaks (config (player (initMembers s)))\<rparr>"
  let ?ps = "map position (configAdBreaks ?s1)"
  let ?s2 = "onAdManifestLoaded ?ps (?s1\<lparr>effects := effects ?s1 @ [Dispatch_AD_MANIFEST_LOADED ?ps]\<rparr>)"
  have 1: "schedulerInv ?s1"
    using sorted_ingestAdBreaks [of "config (player (initMembers s))"]
    by (simp add: schedulerInv_def initMembers_def)
  then have 2: "schedulerInv ?s2" by (simp add: schedulerInv_def onAdManifestLoaded_def)
  then have 3: "schedulerInv (handleConfiguredPreroll ?s2)"
    by (simp add: handleConfiguredPreroll_def schedulerInv_playConfigAdBreak)
  have "init s = ?s1 \<or> init s = ?s2 \<or> init s = handleConfiguredPreroll ?s2"
    unfolding init_def handleConfiguredAdBreaks_def Let_def by simp
  with 1 2 3 show ?thesis by metis
qed

lemma dueAdBreaks_member:
  "i \<in> set (dueAdBreaks s) \<Longrightarrow> lessNum (snapback s) (position (configAdBreaks s ! i))"
  by (simp add: dueAdBreaks_def)

lemma lessEq_less_trans: "lessEqNum a b \<Longrightarrow> lessNum b c \<Longrightarrow> lessEqNum a c"
  by (cases a; cases b; cases c) simp_all

lemma schedulerInv_onTimeUpdate: "schedulerInv s \<Longrightarrow> schedulerInv (onTimeUpdate s)"
proof -
  assume a: "schedulerInv s"
  show ?thesis
  proof (cases "\<not> paused (player s) \<and> dueAdBreaks s \<noteq> []")
    case True
    then have "last (dueAdBreaks s) \<in> set (dueAdBreaks s)" by simp
    then have "lessNum (snapback s) (position (configAdBreaks s ! last (dueAdBreaks s)))"
      by (rule dueAdBreaks_member)
    with a have "lessEqNum (Num 0) (position (configAdBreaks s ! last (dueAdBreaks s)))"
      using lessEq_less_trans by (auto simp: schedulerInv_def)
    with a have "schedulerInv (s\<lparr>snapback := position (configAdBreaks s ! last (dueAdBreaks s))\<rparr>)"
      by (simp add: schedulerInv_def)
    then show ?thesis using True
      by (simp add: onTimeUpdate_def schedulerInv_playConfigAdBreak)
  next
    case False
    then show ?thesis using a by (auto simp: onTimeUpdate_def)
  qed
qed

lemma schedulerInv_handleConfiguredPostroll:
  "schedulerInv s \<Longrightarrow> schedulerInv (handleConfiguredPostroll s)"
proof -
  assume a: "schedulerInv s"
  have "schedulerInv (s\<lparr>configAdBreaks := map (\<lambda>b. b\<lparr>played := True\<rparr>) (configAdBreaks s)\<rparr>)"
    using a by (simp add: schedulerInv_def comp_def image_image)
  then show ?thesis using a
    by (simp add: handleConfiguredPostroll_def schedulerInv_playConfigAdBreak)
qed

lemma schedulerInv_step: "schedulerInv s \<Longrightarrow> schedulerInv (step e s)"
proof (cases e)
  case PLAYER_RESET
  then show ?thesis by (simp add: reset_def schedulerInv_init)
next
  case TIME_UPDATE
  assume "schedulerInv s"
  with TIME_UPDATE show ?thesis by (simp add: schedulerInv_onTimeUpdate)
next
  case (PromiseSettled k)
  assume a: "schedulerInv s"
  then have "schedulerInv (s\<lparr>pending := q\<rparr>)" for q by (simp add: schedulerInv_def)
  then have "schedulerInv (handleConfiguredPostroll (s\<lparr>pending := q\<rparr>))" for q
    by (rule schedulerInv_handleConfiguredPostroll)
  with a PromiseSettled show ?thesis
    by (auto simp: promiseSettled_def bumperFinally_def schedulerInv_def
        split: promiseCallback.splits option.splits)
qed (auto simp: schedulerInv_def onAdManifestLoaded_def onAdBreakStart_def onAdLoaded_def
      onAdStarted_def onAdBreakEnd_def onAdsCompleted_def onAdError_def onEnded_def
      bumperFinally_def onSeeked_def playAdNow_def playAdBreak_def skipAd_def Let_def
      split: option.splits)

lemma schedulerInv_run: "schedulerInv s \<Longrightarrow> schedulerInv (run es s)"
  unfolding run_def by (induction es arbitrary: s) (simp_all add: schedulerInv_step)

lemma schedulerInv_reachable: "schedulerInv (run es (new_AdsController p ctrls))"
  by (simp add: schedulerInv_run new_AdsController_def schedulerInv_init)

section \<open>Ingestion of the configured ad breaks\<close>


lemma ingest_config_10_nan_5:
  "ingestAdBreaks config_10_nan_5 =
     [\<lparr>position = Num 10, ads = [''mid10''], played = False\<rparr>,
      \<lparr>position = NaN, ads = [''nan''], played = False\<rparr>,
      \<lparr>position = Num 5, ads = [''mid5''], played = False\<rparr>]"
  by (simp add: ingestAdBreaks_def config_10_nan_5_def effectivePlayAdsAfterTime_def orElse_def
      eligible_def toRunTime_def breakAt_def sortWith_def comparePosition_def)

lemma ingest_config_0_10_20_post:
  "ingestAdBreaks config_0_10_20_post =
     [\<lparr>position = Num (- 1), ads = [''post''], played = False\<rparr>,
      \<lparr>position = Num 0, ads = [''pre''], played = True\<rparr>,
      \<lparr>position = Num 10, ads = [''mid1''], played = False\<rparr>,
      \<lparr>position = Num 20, ads = [''mid2''], played = False\<rparr>]"
  by (simp add: ingestAdBreaks_def config_0_10_20_post_def effectivePlayAdsAfterTime_def orElse_def
      eligible_def toRunTime_def breakAt_def sortWith_def comparePosition_def)




section \<open>Midroll monitoring\<close>

lemma sorted_le_last: "sorted xs \<Longrightarrow> x \<in> set xs \<Longrightarrow> x \<le> last (xs :: nat list)"
proof -
  assume s: "sorted xs" and m: "x \<in> set xs"
  then obtain i where i: "i < length xs" "xs ! i = x" by (auto simp: in_set_conv_nth)
  then have ne: "xs \<noteq> []" by auto
  have "xs ! i \<le> xs ! (length xs - 1)"
    using s i by (intro sorted_nth_mono) auto
  then show ?thesis using i ne by (simp add: last_conv_nth)
qed

lemma due_truthy:
  assumes "lessEqNum (Num 0) sb" and "lessNum sb pos" and "lessEqNum pos (toNumber ct)"
  shows "truthy ct"
proof -
  from assms obtain a b c where "sb = Num a" "pos = Num b" "toNumber ct = Num c"
    by (cases sb; cases pos; cases "toNumber ct") simp_all
  with assms have "toNumber ct = Num c" "0 < c" by simp_all
  then show ?thesis by (cases ct rule: toNumber.cases) auto
qed

lemma lessEqNum_isNumber: "lessEqNum (Num 0) sb \<Longrightarrow> lessNum sb pos \<Longrightarrow> lessEqNum pos (toNumber ct) \<Longrightarrow> isNumber ct"
  by (drule (2) due_truthy) (cases ct rule: truthy.cases, simp_all)

lemma dueAdBreaks_eq_dueBySpec: "lessEqNum (Num 0) (snapback s) \<Longrightarrow> dueAdBreaks s = dueBySpec s"
  unfolding dueAdBreaks_def dueBySpec_def
  by (rule filter_cong [OF refl]) (use due_truthy lessEqNum_isNumber in blast)

lemma dueBySpec_sorted: "sorted (dueBySpec s)"
  unfolding dueBySpec_def by (rule sorted_wrt_filter) simp

lemma dueBySpec_bound: "i \<in> set (dueBySpec s) \<Longrightarrow> i < length (configAdBreaks s)"
  by (simp add: dueBySpec_def)

lemma playConfigAdBreak_others:
  "i \<noteq> m \<Longrightarrow> configAdBreaks (playConfigAdBreak m s) ! i = configAdBreaks s ! i"
  by (auto simp: playConfigAdBreak_def playAdBreak_def split: option.splits)

lemma playConfigAdBreak_primary:
  "find (\<lambda>c. \<not> isBumper c) (adsPluginControllers s) = Some c \<Longrightarrow> m < length (configAdBreaks s) \<Longrightarrow>
   played (configAdBreaks (playConfigAdBreak m s) ! m) \<and>
   effects (playConfigAdBreak m s) = effects s @ [PlayAdNow (ctrl_name c) (ads (configAdBreaks s ! m))]"
  by (auto simp: playConfigAdBreak_def playAdBreak_def)

lemma state_5_15_at_20:
  "run [PlayerChanged (playerAt config_5_15 20)] (new_AdsController (playerAt config_5_15 0) [ima]) =
     \<lparr>player = playerAt config_5_15 20, adsPluginControllers = [ima], allAdsCompleted = False,
      adBreaksLayout = [Num 15, Num 5], adBreak = None, ad = None, adPlayed = False,
      snapback = Num 0,
      configAdBreaks = [\<lparr>position = Num 5, ads = [''mid5''], played = False\<rparr>,
                        \<lparr>position = Num 15, ads = [''mid15''], played = False\<rparr>],
      adIsLoading = False, pending = [],
      effects = [Dispatch_AD_MANIFEST_LOADED [Num 5, Num 15]]\<rparr>"
  by (simp add: run_def new_AdsController_def init_def initMembers_def
      handleConfiguredAdBreaks_def onAdManifestLoaded_def ingestAdBreaks_def config_5_15_def
      playerAt_def effectivePlayAdsAfterTime_def orElse_def eligible_def toRunTime_def
      breakAt_def sortWith_def comparePosition_def Let_def defaultSort_def arrayFromSet_def
      digitChar_def)

lemma state_5_15_jump:
  "run [PlayerChanged (playerAt config_5_15 20), TIME_UPDATE]
       (new_AdsController (playerAt config_5_15 0) [ima]) =
     \<lparr>player = playerAt config_5_15 20, adsPluginControllers = [ima], allAdsCompleted = False,
      adBreaksLayout = [Num 15, Num 5], adBreak = None, ad = None, adPlayed = False,
      snapback = Num 15,
      configAdBreaks = [\<lparr>position = Num 5, ads = [''mid5''], played = False\<rparr>,
                        \<lparr>position = Num 15, ads = [''mid15''], played = True\<rparr>],
      adIsLoading = True, pending = [],
      effects = [Dispatch_AD_MANIFEST_LOADED [Num 5, Num 15], PlayAdNow ''ima'' [''mid15'']]\<rparr>"
proof -
  have "run [PlayerChanged (playerAt config_5_15 20), TIME_UPDATE]
       (new_AdsController (playerAt config_5_15 0) [ima]) =
     onTimeUpdate (run [PlayerChanged (playerAt config_5_15 20)]
       (new_AdsController (playerAt config_5_15 0) [ima]))"
    by (simp add: run_def)
  then show ?thesis unfolding state_5_15_at_20
    by (simp add: onTimeUpdate_def dueAdBreaks_def playerAt_def upt_rec playConfigAdBreak_def
        playAdBreak_def ima_def isBumper_def)
qed

lemma example_5_15:
  "snapback (run [PlayerChanged (playerAt config_5_15 20), TIME_UPDATE]
       (new_AdsController (playerAt config_5_15 0) [ima])) = Num 15 \<and>
   configAdBreaks (run [PlayerChanged (playerAt config_5_15 20), TIME_UPDATE]
       (new_AdsController (playerAt config_5_15 0) [ima])) =
     [\<lparr>position = Num 5, ads = [''mid5''], played = False\<rparr>,
      \<lparr>position = Num 15, ads = [''mid15''], played = True\<rparr>] \<and>
   effects (run [PlayerChanged (playerAt config_5_15 20), TIME_UPDATE]
       (new_AdsController (playerAt config_5_15 0) [ima])) =
     [Dispatch_AD_MANIFEST_LOADED [Num 5, Num 15], PlayAdNow ''ima'' [''mid15'']]"
  unfolding state_5_15_jump by simp

lemma state_10_nan_5_at_20:
  "run [PlayerChanged (playerAt config_10_nan_5 20)]
       (new_AdsController (playerAt config_10_nan_5 0) [ima]) =
     \<lparr>player = playerAt config_10_nan_5 20, adsPluginControllers = [ima], allAdsCompleted = False,
      adBreaksLayout = [Num 10, Num 5, NaN], adBreak = None, ad = None, adPlayed = False,
      snapback = Num 0,
      configAdBreaks = [\<lparr>position = Num 10, ads = [''mid10''], played = False\<rparr>,
                        \<lparr>position = NaN, ads = [''nan''], played = False\<rparr>,
                        \<lparr>position = Num 5, ads = [''mid5''], played = False\<rparr>],
      adIsLoading = False, pending = [],
      effects = [Dispatch_AD_MANIFEST_LOADED [Num 10, NaN, Num 5]]\<rparr>"
  by (simp add: run_def new_AdsController_def init_def initMembers_def
      handleConfiguredAdBreaks_def onAdManifestLoaded_def ingest_config_10_nan_5
      playerAt_def Let_def defaultSort_def arrayFromSet_def digitChar_def)

text \<open>
  Claim C2, as stated, does not hold. With breaks configured at 10, \<open>NaN\<close> and 5, in this
  order, the list of configured breaks is not in ascending order. When the current time
  jumps to 20, the breaks at 10 and at 5 are due; the notification dispatches the last
  of them in the list, the break at 5, and \<open>snapback\<close> becomes 5, although 10 is the
  greatest due position. The break at 10 is still due, and the next notification
  dispatches it too.
\<close>

theorem onTimeUpdate_counterexample:
  "\<not> paused (player (run [PlayerChanged (playerAt config_10_nan_5 20)]
       (new_AdsController (playerAt config_10_nan_5 0) [ima]))) \<and>
   map (\<lambda>i. position (configAdBreaks (run [PlayerChanged (playerAt config_10_nan_5 20)]
       (new_AdsController (playerAt config_10_nan_5 0) [ima])) ! i))
     (dueBySpec (run [PlayerChanged (playerAt config_10_nan_5 20)]
       (new_AdsController (playerAt config_10_nan_5 0) [ima]))) = [Num 10, Num 5] \<and>
   snapback (run [PlayerChanged (playerAt config_10_nan_5 20), TIME_UPDATE]
       (new_AdsController (playerAt config_10_nan_5 0) [ima])) = Num 5 \<and>
   configAdBreaks (run [PlayerChanged (playerAt config_10_nan_5 20), TIME_UPDATE]
       (new_AdsController (playerAt config_10_nan_5 0) [ima])) =
     [\<lparr>position = Num 10, ads = [''mid10''], played = False\<rparr>,
      \<lparr>position = NaN, ads = [''nan''], played = False\<rparr>,
      \<lparr>position = Num 5, ads = [''mid5''], played = True\<rparr>] \<and>
   effects (run [PlayerChanged (playerAt config_10_nan_5 20), TIME_UPDATE]
       (new_AdsController (playerAt config_10_nan_5 0) [ima])) =
     [Dispatch_AD_MANIFEST_LOADED [Num 10, NaN, Num 5], PlayAdNow ''ima'' [''mid5'']] \<and>
   effects (run [PlayerChanged (playerAt config_10_nan_5 20), TIME_UPDATE, TIME_UPDATE]
       (new_AdsController (playerAt config_10_nan_5 0) [ima])) =
     [Dispatch_AD_MANIFEST_LOADED [Num 10, NaN, Num 5], PlayAdNow ''ima'' [''mid5''],
      PlayAdNow ''ima'' [''mid10'']]"
proof -
  let ?s = "run [PlayerChanged (playerAt config_10_nan_5 20)]
       (new_AdsController (playerAt config_10_nan_5 0) [ima])"
  let ?s1 = "run [PlayerChanged (playerAt config_10_nan_5 20), TIME_UPDATE]
       (new_AdsController (playerAt config_10_nan_5 0) [ima])"
  let ?s2 = "run [PlayerChanged (playerAt config_10_nan_5 20), TIME_UPDATE, TIME_UPDATE]
       (new_AdsController (playerAt config_10_nan_5 0) [ima])"
  have np: "\<not> paused (player ?s)" unfolding state_10_nan_5_at_20 by (simp add: playerAt_def)
  have due: "map (\<lambda>i. position (configAdBreaks ?s ! i)) (dueBySpec ?s) = [Num 10, Num 5]"
    unfolding state_10_nan_5_at_20 by (simp add: dueBySpec_def playerAt_def upt_rec)
  have "?s1 = onTimeUpdate ?s" by (simp add: run_def)
  then have s1: "?s1 =
     \<lparr>player = playerAt config_10_nan_5 20, adsPluginControllers = [ima], allAdsCompleted = False,
      adBreaksLayout = [Num 10, Num 5, NaN], adBreak = None, ad = None, adPlayed = False,
      snapback = Num 5,
      configAdBreaks = [\<lparr>position = Num 10, ads = [''mid10''], played = False\<rparr>,
                        \<lparr>position = NaN, ads = [''nan''], played = False\<rparr>,
                        \<lparr>position = Num 5, ads = [''mid5''], played = True\<rparr>],
      adIsLoading = True, pending = [],
      effects = [Dispatch_AD_MANIFEST_LOADED [Num 10, NaN, Num 5], PlayAdNow ''ima'' [''mid5'']]\<rparr>"
    unfolding state_10_nan_5_at_20
    by (simp add: onTimeUpdate_def dueAdBreaks_def playerAt_def upt_rec playConfigAdBreak_def
        playAdBreak_def ima_def isBumper_def)
  have "?s2 = onTimeUpdate ?s1" by (simp add: run_def)
  then have s2: "effects ?s2 =
     [Dispatch_AD_MANIFEST_LOADED [Num 10, NaN, Num 5], PlayAdNow ''ima'' [''mid5''],
      PlayAdNow ''ima'' [''mid10'']]"
    unfolding s1
    by (simp add: onTimeUpdate_def dueAdBreaks_def playerAt_def upt_rec playConfigAdBreak_def
        playAdBreak_def ima_def isBumper_def)
  have a: "snapback ?s1 = Num 5" unfolding s1 by simp
  have b: "configAdBreaks ?s1 =
     [\<lparr>position = Num 10, ads = [''mid10''], played = False\<rparr>,
      \<lparr>position = NaN, ads = [''nan''], played = False\<rparr>,
      \<lparr>position = Num 5, ads = [''mid5''], played = True\<rparr>]" unfolding s1 by simp
  have c: "effects ?s1 =
     [Dispatch_AD_MANIFEST_LOADED [Num 10, NaN, Num 5], PlayAdNow ''ima'' [''mid5'']]"
    unfolding s1 by simp
  show ?thesis by (rule conjI [OF np conjI [OF due conjI [OF a conjI [OF b conjI [OF c s2]]]]])
qed

text \<open>
  Claim C2, amended. In every state a scheduler can reach, when a time-progress
  notification arrives while the player is not paused: if no configured break is due
  (not yet played, positioned at or before the current time and strictly after
  \<open>snapback\<close>) nothing changes; otherwise the due break that comes last in the list of
  configured breaks is the one and only break handed to the dispatch procedure,
  \<open>snapback\<close> becomes its position, every other break is left as it was, and with a
  primary controller registered the break is marked played and that controller is told to
  play its ads. When no configured break has the position \<open>NaN\<close>, the position of that
  break is the greatest of the due ones. With unplayed breaks at 5 and 15 and the current
  time jumping to 20, only the break at 15 fires and \<open>snapback\<close> becomes 15.
\<close>

theorem onTimeUpdate_greatest_due:
  assumes "s = run es (new_AdsController p ctrls)" and "\<not> paused (player s)"
  shows
  "(dueBySpec s = [] \<longrightarrow> onTimeUpdate s = s) \<and>
   (dueBySpec s \<noteq> [] \<longrightarrow>
      last (dueBySpec s) \<in> set (dueBySpec s) \<and>
      (\<forall>i \<in> set (dueBySpec s). i \<le> last (dueBySpec s)) \<and>
      (NaN \<notin> position ` set (configAdBreaks s) \<longrightarrow>
         (\<forall>i \<in> set (dueBySpec s).
            lessEqNum (position (configAdBreaks s ! i))
              (position (configAdBreaks s ! last (dueBySpec s))))) \<and>
      onTimeUpdate s =
        playConfigAdBreak (last (dueBySpec s))
          (s\<lparr>snapback := position (configAdBreaks s ! last (dueBySpec s))\<rparr>) \<and>
      snapback (onTimeUpdate s) = position (configAdBreaks s ! last (dueBySpec s)) \<and>
      (\<forall>i. i \<noteq> last (dueBySpec s) \<longrightarrow> configAdBreaks (onTimeUpdate s) ! i = configAdBreaks s ! i) \<and>
      (\<forall>c. find (\<lambda>c. \<not> isBumper c) (adsPluginControllers s) = Some c \<longrightarrow>
         played (configAdBreaks (onTimeUpdate s) ! last (dueBySpec s)) \<and>
         effects (onTimeUpdate s) =
           effects s @ [PlayAdNow (ctrl_name c) (ads (configAdBreaks s ! last (dueBySpec s)))])) \<and>
   snapback (run [PlayerChanged (playerAt config_5_15 20), TIME_UPDATE]
       (new_AdsController (playerAt config_5_15 0) [ima])) = Num 15 \<and>
   configAdBreaks (run [PlayerChanged (playerAt config_5_15 20), TIME_UPDATE]
       (new_AdsController (playerAt config_5_15 0) [ima])) =
     [\<lparr>position = Num 5, ads = [''mid5''], played = False\<rparr>,
      \<lparr>position = Num 15, ads = [''mid15''], played = True\<rparr>] \<and>
   effects (run [PlayerChanged (playerAt config_5_15 20), TIME_UPDATE]
       (new_AdsController (playerAt config_5_15 0) [ima])) =
     [Dispatch_AD_MANIFEST_LOADED [Num 5, Num 15], PlayAdNow ''ima'' [''mid15'']]"
proof -
  have inv: "schedulerInv s" using assms(1) by (simp add: schedulerInv_reachable)
  then have due: "dueAdBreaks s = dueBySpec s"
    by (simp add: schedulerInv_def dueAdBreaks_eq_dueBySpec)
  have A: "dueBySpec s = [] \<longrightarrow> onTimeUpdate s = s"
    using due by (simp add: onTimeUpdate_def)
  have B: "dueBySpec s \<noteq> [] \<longrightarrow>
      last (dueBySpec s) \<in> set (dueBySpec s) \<and>
      (\<forall>i \<in> set (dueBySpec s). i \<le> last (dueBySpec s)) \<and>
      (NaN \<notin> position ` set (configAdBreaks s) \<longrightarrow>
         (\<forall>i \<in> set (dueBySpec s).
            lessEqNum (position (configAdBreaks s ! i))
              (position (configAdBreaks s ! last (dueBySpec s))))) \<and>
      onTimeUpdate s =
        playConfigAdBreak (last (dueBySpec s))
          (s\<lparr>snapback := position (configAdBreaks s ! last (dueBySpec s))\<rparr>) \<and>
      snapback (onTimeUpdate s) = position (configAdBreaks s ! last (dueBySpec s)) \<and>
      (\<forall>i. i \<noteq> last (dueBySpec s) \<longrightarrow> configAdBreaks (onTimeUpdate s) ! i = configAdBreaks s ! i) \<and>
      (\<forall>c. find (\<lambda>c. \<not> isBumper c) (adsPluginControllers s) = Some c \<longrightarrow>
         played (configAdBreaks (onTimeUpdate s) ! last (dueBySpec s)) \<and>
         effects (onTimeUpdate s) =
           effects s @ [PlayAdNow (ctrl_name c) (ads (configAdBreaks s ! last (dueBySpec s)))])"
  proof (rule impI)
    assume ne: "dueBySpec s \<noteq> []"
    define m where "m = last (dueBySpec s)"
    have m_in: "m \<in> set (dueBySpec s)" using ne by (simp add: m_def)
    then have m_len: "m < length (configAdBreaks s)" by (rule dueBySpec_bound)
    have le: "\<forall>i \<in> set (dueBySpec s). i \<le> m"
      unfolding m_def using dueBySpec_sorted sorted_le_last by blast
    have greatest: "NaN \<notin> position ` set (configAdBreaks s) \<longrightarrow>
         (\<forall>i \<in> set (dueBySpec s).
            lessEqNum (position (configAdBreaks s ! i)) (position (configAdBreaks s ! m)))"
    proof (intro impI ballI)
      fix i assume nn: "NaN \<notin> position ` set (configAdBreaks s)" and i: "i \<in> set (dueBySpec s)"
      from nn inv have srt: "sorted_wrt lessEqNum (map position (configAdBreaks s))"
        by (simp add: schedulerInv_def)
      from i le have im: "i \<le> m" by blast
      show "lessEqNum (position (configAdBreaks s ! i)) (position (configAdBreaks s ! m))"
      proof (cases "i = m")
        case True
        have "position (configAdBreaks s ! m) \<noteq> NaN" using nn m_len by (metis image_eqI nth_mem)
        then obtain a where "position (configAdBreaks s ! m) = Num a" using not_NaN by blast
        then show ?thesis using True by simp
      next
        case False
        then have "i < m" using im by simp
        from sorted_wrt_nth_less [OF srt this] m_len show ?thesis using \<open>i < m\<close> by simp
      qed
    qed
    have eq: "onTimeUpdate s = playConfigAdBreak m (s\<lparr>snapback := position (configAdBreaks s ! m)\<rparr>)"
      using ne due assms(2) by (simp add: onTimeUpdate_def m_def)
    have snap: "snapback (onTimeUpdate s) = position (configAdBreaks s ! m)"
      by (simp add: eq playConfigAdBreak_snapback)
    have others: "\<forall>i. i \<noteq> m \<longrightarrow> configAdBreaks (onTimeUpdate s) ! i = configAdBreaks s ! i"
      by (simp add: eq playConfigAdBreak_others)
    have prim: "\<forall>c. find (\<lambda>c. \<not> isBumper c) (adsPluginControllers s) = Some c \<longrightarrow>
         played (configAdBreaks (onTimeUpdate s) ! m) \<and>
         effects (onTimeUpdate s) = effects s @ [PlayAdNow (ctrl_name c) (ads (configAdBreaks s ! m))]"
    proof (intro allI impI)
      fix c assume f: "find (\<lambda>c. \<not> isBumper c) (adsPluginControllers s) = Some c"
      show "played (configAdBreaks (onTimeUpdate s) ! m) \<and>
         effects (onTimeUpdate s) = effects s @ [PlayAdNow (ctrl_name c) (ads (configAdBreaks s ! m))]"
        using playConfigAdBreak_primary [of "s\<lparr>snapback := position (configAdBreaks s ! m)\<rparr>" c m] f m_len
        by (simp add: eq)
    qed
    show "last (dueBySpec s) \<in> set (dueBySpec s) \<and>
      (\<forall>i \<in> set (dueBySpec s). i \<le> last (dueBySpec s)) \<and>
      (NaN \<notin> position ` set (configAdBreaks s) \<longrightarrow>
         (\<forall>i \<in> set (dueBySpec s).
            lessEqNum (position (configAdBreaks s ! i))
              (position (configAdBreaks s ! last (dueBySpec s))))) \<and>
      onTimeUpdate s =
        playConfigAdBreak (last (dueBySpec s))
          (s\<lparr>snapback := position (configAdBreaks s ! last (dueBySpec s))\<rparr>) \<and>
      snapback (onTimeUpdate s) = position (configAdBreaks s ! last (dueBySpec s)) \<and>
      (\<forall>i. i \<noteq> last (dueBySpec s) \<longrightarrow> configAdBreaks (onTimeUpdate s) ! i = configAdBreaks s ! i) \<and>
      (\<forall>c. find (\<lambda>c. \<not> isBumper c) (adsPluginControllers s) = Some c \<longrightarrow>
         played (configAdBreaks (onTimeUpdate s) ! last (dueBySpec s)) \<and>
         effects (onTimeUpdate s) =
           effects s @ [PlayAdNow (ctrl_name c) (ads (configAdBreaks s ! last (dueBySpec s)))])"
      unfolding m_def [symmetric]
      by (rule conjI [OF m_in conjI [OF le conjI [OF greatest conjI [OF eq conjI [OF snap conjI [OF others prim]]]]]])
  qed
  show ?thesis by (rule conjI [OF A conjI [OF B example_5_15]])
qed

theorem onTimeUpdate_greatest_due_witness:
  "\<not> paused (player (run [PlayerChanged (playerAt config_5_15 20)]
       (new_AdsController (playerAt config_5_15 0) [ima]))) \<and>
   dueBySpec (run [PlayerChanged (playerAt config_5_15 20)]
       (new_AdsController (playerAt config_5_15 0) [ima])) = [0, 1] \<and>
   NaN \<notin> position ` set (configAdBreaks (run [PlayerChanged (playerAt config_5_15 20)]
       (new_AdsController (playerAt config_5_15 0) [ima]))) \<and>
   lessEqNum (Num 5) (Num 15) \<and>
   find (\<lambda>c. \<not> isBumper c) (adsPluginControllers (run [PlayerChanged (playerAt config_5_15 20)]
       (new_AdsController (playerAt config_5_15 0) [ima]))) = Some ima \<and>
   snapback (onTimeUpdate (run [PlayerChanged (playerAt config_5_15 20)]
       (new_AdsController (playerAt config_5_15 0) [ima]))) = Num 15 \<and>
   configAdBreaks (onTimeUpdate (run [PlayerChanged (playerAt config_5_15 20)]
       (new_AdsController (playerAt config_5_15 0) [ima]))) ! 0 =
     \<lparr>position = Num 5, ads = [''mid5''], played = False\<rparr> \<and>
   played (configAdBreaks (onTimeUpdate (run [PlayerChanged (playerAt config_5_15 20)]
       (new_AdsController (playerAt config_5_15 0) [ima]))) ! 1)"
proof -
  let ?s = "run [PlayerChanged (playerAt config_5_15 20)]
       (new_AdsController (playerAt config_5_15 0) [ima])"
  note st = state_5_15_at_20
  have np: "\<not> paused (player ?s)" unfolding st by (simp add: playerAt_def)
  have due: "dueBySpec ?s = [0, 1]" unfolding st by (simp add: dueBySpec_def playerAt_def upt_rec)
  have prim: "find (\<lambda>c. \<not> isBumper c) (adsPluginControllers ?s) = Some ima"
    unfolding st by (simp add: isBumper_def ima_def)
  have nn: "NaN \<notin> position ` set (configAdBreaks ?s)" unfolding st by simp
  have ne: "dueBySpec ?s \<noteq> []" and lst: "last (dueBySpec ?s) = 1" using due by simp_all
  have cfg: "configAdBreaks ?s = [\<lparr>position = Num 5, ads = [''mid5''], played = False\<rparr>,
                        \<lparr>position = Num 15, ads = [''mid15''], played = False\<rparr>]"
    unfolding st by simp
  note T = onTimeUpdate_greatest_due [OF refl np, THEN conjunct2, THEN conjunct1, THEN mp, OF ne]
  from T have gr: "NaN \<notin> position ` set (configAdBreaks ?s) \<longrightarrow>
         (\<forall>i \<in> set (dueBySpec ?s).
            lessEqNum (position (configAdBreaks ?s ! i))
              (position (configAdBreaks ?s ! last (dueBySpec ?s))))"
    and snap: "snapback (onTimeUpdate ?s) = position (configAdBreaks ?s ! last (dueBySpec ?s))"
    and others: "\<forall>i. i \<noteq> last (dueBySpec ?s) \<longrightarrow>
                   configAdBreaks (onTimeUpdate ?s) ! i = configAdBreaks ?s ! i"
    and disp: "\<forall>c. find (\<lambda>c. \<not> isBumper c) (adsPluginControllers ?s) = Some c \<longrightarrow>
         played (configAdBreaks (onTimeUpdate ?s) ! last (dueBySpec ?s)) \<and>
         effects (onTimeUpdate ?s) =
           effects ?s @ [PlayAdNow (ctrl_name c) (ads (configAdBreaks ?s ! last (dueBySpec ?s)))]"
    by blast+
  have "0 \<in> set (dueBySpec ?s)" by (simp add: due)
  with gr nn have "lessEqNum (position (configAdBreaks ?s ! 0))
              (position (configAdBreaks ?s ! last (dueBySpec ?s)))" by blast
  then have g: "lessEqNum (Num 5) (Num 15)" by (simp add: lst cfg)
  have "snapback (onTimeUpdate ?s) = Num 15" using snap by (simp add: lst cfg)
  moreover have "configAdBreaks (onTimeUpdate ?s) ! 0 = \<lparr>position = Num 5, ads = [''mid5''], played = False\<rparr>"
    using others by (simp add: lst cfg)
  moreover have "played (configAdBreaks (onTimeUpdate ?s) ! 1)"
    using disp prim by (simp add: lst)
  ultimately show ?thesis using np due prim nn g by simp
qed

section \<open>Seek correction\<close>


lemma findIndex_found:
  "0 \<le> findIndex P xs \<Longrightarrow>
   nat (findIndex P xs) < length xs \<and> P (xs ! nat (findIndex P xs)) \<and>
   (\<forall>j < nat (findIndex P xs). \<not> P (xs ! j))"
proof (induction xs)
  case Nil
  then show ?case by simp
next
  case (Cons x xs)
  show ?case
  proof (cases "P x")
    case True
    then show ?thesis by simp
  next
    case False
    with Cons.prems have nn: "0 \<le> findIndex P xs" by (auto split: if_splits)
    then have r: "findIndex P (x # xs) = findIndex P xs + 1" using False by simp
    have n: "nat (findIndex P xs + 1) = Suc (nat (findIndex P xs))" using nn by simp
    from Cons.IH [OF nn] show ?thesis
      using False unfolding r n by (auto simp: less_Suc_eq_0_disj)
  qed
qed




section \<open>States of the scenarios\<close>

lemma state_bumper_ima:
  "new_AdsController (playerAt config_0_10_20_post 0) [bumper, ima] =
     \<lparr>player = playerAt config_0_10_20_post 0, adsPluginControllers = [bumper, ima],
      allAdsCompleted = False, adBreaksLayout = [Num (- 1), Num 0, Num 10, Num 20],
      adBreak = None, ad = None, adPlayed = False, snapback = Num 0,
      configAdBreaks = [\<lparr>position = Num (- 1), ads = [''post''], played = False\<rparr>,
                        \<lparr>position = Num 0, ads = [''pre''], played = True\<rparr>,
                        \<lparr>position = Num 10, ads = [''mid1''], played = False\<rparr>,
                        \<lparr>position = Num 20, ads = [''mid2''], played = False\<rparr>],
      adIsLoading = False, pending = [],
      effects = [Dispatch_AD_MANIFEST_LOADED [Num (- 1), Num 0, Num 10, Num 20]]\<rparr>"
  by (simp add: new_AdsController_def init_def initMembers_def
        handleConfiguredAdBreaks_def onAdManifestLoaded_def ingest_config_0_10_20_post
        playerAt_def Let_def defaultSort_def arrayFromSet_def
        digitChar_def handleConfiguredPreroll_def)

lemma state_5_15:
  "new_AdsController (playerAt config_5_15 0) [ima] =
     \<lparr>player = playerAt config_5_15 0, adsPluginControllers = [ima], allAdsCompleted = False,
      adBreaksLayout = [Num 15, Num 5], adBreak = None, ad = None, adPlayed = False,
      snapback = Num 0,
      configAdBreaks = [\<lparr>position = Num 5, ads = [''mid5''], played = False\<rparr>,
                        \<lparr>position = Num 15, ads = [''mid15''], played = False\<rparr>],
      adIsLoading = False, pending = [],
      effects = [Dispatch_AD_MANIFEST_LOADED [Num 5, Num 15]]\<rparr>"
  by (simp add: new_AdsController_def init_def initMembers_def
      handleConfiguredAdBreaks_def onAdManifestLoaded_def ingestAdBreaks_def config_5_15_def
      playerAt_def effectivePlayAdsAfterTime_def orElse_def eligible_def toRunTime_def
      breakAt_def sortWith_def comparePosition_def Let_def defaultSort_def arrayFromSet_def
      digitChar_def)

section \<open>The completion flag\<close>

lemma playConfigAdBreak_pending: "pending (playConfigAdBreak i s) = pending s"
  by (auto simp: playConfigAdBreak_def playAdBreak_def split: option.splits)

lemma playConfigAdBreak_allAdsCompleted: "allAdsCompleted (playConfigAdBreak i s) = allAdsCompleted s"
  by (auto simp: playConfigAdBreak_def playAdBreak_def split: option.splits)

lemma handleConfiguredPostroll_allAdsCompleted:
  "allAdsCompleted (handleConfiguredPostroll s) = allAdsCompleted s"
  by (simp add: handleConfiguredPostroll_def playConfigAdBreak_allAdsCompleted)

lemma new_allAdsCompleted:
  "allAdsCompleted (init s) = (ingestAdBreaks (config (player s)) = [])"
  by (simp add: init_def initMembers_def handleConfiguredAdBreaks_def Let_def
      handleConfiguredPreroll_def onAdManifestLoaded_def playConfigAdBreak_allAdsCompleted)

lemma onEnded_allAdsCompleted:
  "allAdsCompleted (onEnded s) =
     (allAdsCompleted s \<or> (\<not> adIsLoading s \<and> Num (- 1) \<notin> set (adBreaksLayout s)))"
  by (auto simp: onEnded_def bumperFinally_def Let_def split: option.splits)

lemma onAdsCompleted_allAdsCompleted:
  "allAdsCompleted (onAdsCompleted s) =
     (allAdsCompleted s \<or>
      (list_all ctrl_done (adsPluginControllers s) \<and> list_all played (configAdBreaks s)))"
  by (auto simp: onAdsCompleted_def)

lemma onAdError_allAdsCompleted:
  "allAdsCompleted (onAdError sev s) =
     (allAdsCompleted s \<or>
      (sev = CRITICAL \<and> list_all ctrl_done (adsPluginControllers s) \<and>
       list_all played (configAdBreaks s)))"
  by (auto simp: onAdError_def Let_def)

lemma other_allAdsCompleted:
  "allAdsCompleted (onTimeUpdate s) = allAdsCompleted s"
  "allAdsCompleted (onSeeked s) = allAdsCompleted s"
  "allAdsCompleted (promiseSettled k s) = allAdsCompleted s"
  "allAdsCompleted (playAdNow adPod s) = allAdsCompleted s"
  by (auto simp: onTimeUpdate_def onSeeked_def promiseSettled_def bumperFinally_def
      playAdNow_def playAdBreak_def
      playConfigAdBreak_allAdsCompleted handleConfiguredPostroll_allAdsCompleted
      split: promiseCallback.splits option.splits)

text \<open>
  Claim C1, as stated, does not hold: the flag is not the conjunction it is said to be. With midrolls configured at 5 and 15
  and one controller that is not done, a media-ended notification right after
  construction finds no postroll in the layout and sets \<open>allAdsCompleted\<close>, although no
  break is played and the controller is not done.
\<close>

theorem allAdsCompleted_counterexample:
  "allAdsCompleted (run [ENDED] (new_AdsController (playerAt config_5_15 0) [ima])) \<and>
   \<not> list_all ctrl_done (adsPluginControllers (run [ENDED] (new_AdsController (playerAt config_5_15 0) [ima]))) \<and>
   \<not> list_all played (configAdBreaks (run [ENDED] (new_AdsController (playerAt config_5_15 0) [ima])))"
proof -
  have "run [ENDED] (new_AdsController (playerAt config_5_15 0) [ima]) =
      onEnded (new_AdsController (playerAt config_5_15 0) [ima])"
    by (simp add: run_def)
  then show ?thesis unfolding state_5_15 by (simp add: onEnded_def ima_def)
qed

text \<open>
  Claim C1, amended. \<open>allAdsCompleted\<close> is a flag that the handlers set: it is true
  after \<open>_initMembers\<close>, and after construction exactly when no configured break was
  ingested (no manifest is known); every manifest-loaded notification sets it false. The
  ads-completed check sets it true when every controller reports done and every
  configured break is played and leaves it as it was otherwise, so with one controller
  not done the check never turns it true, whatever the breaks report; the ad-error
  handler does the same on a critical error. The media-ended handler sets it true when no
  ad is loading and the layout has no postroll. Time-progress and seek notifications,
  settled promises and \<open>playAdNow\<close> leave it unchanged.
\<close>

theorem allAdsCompleted_latched:
  "allAdsCompleted (initMembers s) \<and>
   allAdsCompleted (new_AdsController p ctrls) = (ingestAdBreaks (config p) = []) \<and>
   \<not> allAdsCompleted (onAdManifestLoaded ps s) \<and>
   allAdsCompleted (onAdsCompleted s) =
     (allAdsCompleted s \<or>
      (list_all ctrl_done (adsPluginControllers s) \<and> list_all played (configAdBreaks s))) \<and>
   allAdsCompleted (onAdError sev s) =
     (allAdsCompleted s \<or>
      (sev = CRITICAL \<and> list_all ctrl_done (adsPluginControllers s) \<and>
       list_all played (configAdBreaks s))) \<and>
   allAdsCompleted (onEnded s) =
     (allAdsCompleted s \<or> (\<not> adIsLoading s \<and> Num (- 1) \<notin> set (adBreaksLayout s))) \<and>
   allAdsCompleted (onTimeUpdate s) = allAdsCompleted s \<and>
   allAdsCompleted (onSeeked s) = allAdsCompleted s \<and>
   allAdsCompleted (promiseSettled k s) = allAdsCompleted s \<and>
   allAdsCompleted (playAdNow adPod s) = allAdsCompleted s"
  using new_allAdsCompleted [of "\<lparr>player = p, adsPluginControllers = ctrls, allAdsCompleted = True, adBreaksLayout = [],
           adBreak = None, ad = None, adPlayed = False, snapback = Num 0, configAdBreaks = [],
           adIsLoading = False, pending = [], effects = []\<rparr>"]
  by (simp add: onEnded_allAdsCompleted onAdsCompleted_allAdsCompleted onAdError_allAdsCompleted
      other_allAdsCompleted initMembers_def onAdManifestLoaded_def new_AdsController_def)

section \<open>The discovered layout\<close>

lemma set_arrayFromSet_aux:
  "set (fold (\<lambda>x acc. if x \<in> set acc then acc else acc @ [x]) xs acc) = set acc \<union> set xs"
  by (induction xs arbitrary: acc) auto

lemma distinct_arrayFromSet_aux:
  "distinct acc \<Longrightarrow> distinct (fold (\<lambda>x acc. if x \<in> set acc then acc else acc @ [x]) xs acc)"
  by (induction xs arbitrary: acc) auto

lemma set_arrayFromSet: "set (arrayFromSet xs) = set xs"
  by (simp add: arrayFromSet_def set_arrayFromSet_aux)

lemma distinct_arrayFromSet: "distinct (arrayFromSet xs)"
  by (simp add: arrayFromSet_def distinct_arrayFromSet_aux)

lemma layout_example_config:
  "getAdBreaksLayout (new_AdsController (playerAt config_2_10_post 0) [ima]) = [Num (- 1), Num 10, Num 2]"
  by (simp add: getAdBreaksLayout_def new_AdsController_def init_def initMembers_def
      handleConfiguredAdBreaks_def onAdManifestLoaded_def ingestAdBreaks_def config_2_10_post_def
      playerAt_def effectivePlayAdsAfterTime_def orElse_def eligible_def toRunTime_def
      breakAt_def sortWith_def comparePosition_def Let_def defaultSort_def arrayFromSet_def
      digitChar_def)

lemma layout_example_manifest:
  "getAdBreaksLayout (run [AD_MANIFEST_LOADED [Num 10, Num 2], AD_MANIFEST_LOADED [Num 2, Num (- 1)]]
      (new_AdsController (playerAt config_none 0) [ima])) = [Num (- 1), Num 10, Num 2]"
  by (simp add: getAdBreaksLayout_def run_def new_AdsController_def init_def initMembers_def
      handleConfiguredAdBreaks_def onAdManifestLoaded_def ingestAdBreaks_def config_none_def
      playerAt_def effectivePlayAdsAfterTime_def orElse_def sortWith_def Let_def defaultSort_def
      arrayFromSet_def digitChar_def)

text \<open>
  Claim C9. After a manifest-loaded notification the layout holds each position discovered so
  far once. Its order is that of the positions' decimal strings, not of the numbers: a
  layout of -1, 2 and 10 is returned as \<open>[-1, 10, 2]\<close>, from a configuration as well as
  from manifest-loaded notifications.
\<close>

theorem getAdBreaksLayout_string_order:
  "set (getAdBreaksLayout (onAdManifestLoaded ps s)) = set (getAdBreaksLayout s) \<union> set ps \<and>
   distinct (getAdBreaksLayout (onAdManifestLoaded ps s)) \<and>
   getAdBreaksLayout (new_AdsController (playerAt config_2_10_post 0) [ima]) = [Num (- 1), Num 10, Num 2] \<and>
   getAdBreaksLayout (run [AD_MANIFEST_LOADED [Num 10, Num 2], AD_MANIFEST_LOADED [Num 2, Num (- 1)]]
      (new_AdsController (playerAt config_none 0) [ima])) = [Num (- 1), Num 10, Num 2] \<and>
   \<not> sorted_wrt lessEqNum [Num (- 1), Num 10, Num 2]"
  using layout_example_config layout_example_manifest
  by (simp add: getAdBreaksLayout_def onAdManifestLoaded_def defaultSort_def
      set_arrayFromSet distinct_arrayFromSet)

section \<open>Postroll handling\<close>

subsection \<open>Where the postroll break is played\<close>

lemma postrollPlayed_nth:
  "postrollPlayed s \<longleftrightarrow>
     (\<exists>j < length (configAdBreaks s).
        position (configAdBreaks s ! j) = Num (- 1) \<and> played (configAdBreaks s ! j))"
  by (simp add: postrollPlayed_def list_ex_length)

lemma postrollPlayed_cong:
  "configAdBreaks s' = configAdBreaks s \<Longrightarrow> postrollPlayed s' = postrollPlayed s"
  by (simp add: postrollPlayed_def)

lemma playConfigAdBreak_length:
  "length (configAdBreaks (playConfigAdBreak i s)) = length (configAdBreaks s)"
  using playConfigAdBreak_positions [of i s] by (metis length_map)

lemma playConfigAdBreak_position:
  "j < length (configAdBreaks s) \<Longrightarrow>
   position (configAdBreaks (playConfigAdBreak i s) ! j) = position (configAdBreaks s ! j)"
  using playConfigAdBreak_positions [of i s] playConfigAdBreak_length [of i s]
  by (metis nth_map)

lemma postrollPlayed_playConfigAdBreak:
  assumes "i < length (configAdBreaks s) \<longrightarrow> position (configAdBreaks s ! i) \<noteq> Num (- 1)"
  shows "postrollPlayed (playConfigAdBreak i s) = postrollPlayed s"
proof -
  have "(position (configAdBreaks (playConfigAdBreak i s) ! j) = Num (- 1) \<and>
         played (configAdBreaks (playConfigAdBreak i s) ! j)) =
        (position (configAdBreaks s ! j) = Num (- 1) \<and> played (configAdBreaks s ! j))"
    if j: "j < length (configAdBreaks s)" for j
  proof (cases "j = i")
    case True
    then show ?thesis using assms j by (simp add: playConfigAdBreak_position)
  next
    case False
    then show ?thesis by (simp add: playConfigAdBreak_others)
  qed
  then show ?thesis unfolding postrollPlayed_nth playConfigAdBreak_length by auto
qed

lemma ingestAdBreaks_postroll_unplayed:
  "b \<in> set (ingestAdBreaks c) \<Longrightarrow> position b = Num (- 1) \<Longrightarrow> \<not> played b"
  unfolding set_ingestAdBreaks by (auto simp: toRunTime_def)

lemma not_postrollPlayed_init: "\<not> postrollPlayed (init s)"
proof -
  let ?s1 = "(initMembers s)\<lparr>configAdBreaks := ingestAdBreaks (config (player (initMembers s)))\<rparr>"
  let ?ps = "map position (configAdBreaks ?s1)"
  let ?s2 = "onAdManifestLoaded ?ps (?s1\<lparr>effects := effects ?s1 @ [Dispatch_AD_MANIFEST_LOADED ?ps]\<rparr>)"
  let ?P = "\<lambda>b. position b = Num 0 \<and> \<not> played b"
  have 1: "\<not> postrollPlayed ?s1"
    using ingestAdBreaks_postroll_unplayed
    by (auto simp: postrollPlayed_def list_ex_iff)
  have "configAdBreaks ?s2 = configAdBreaks ?s1" by (simp add: onAdManifestLoaded_def)
  then have 2: "\<not> postrollPlayed ?s2" using 1 postrollPlayed_cong by blast
  have 3: "\<not> postrollPlayed (handleConfiguredPreroll ?s2)"
  proof (cases "0 \<le> findIndex ?P (configAdBreaks ?s2)")
    case True
    from findIndex_found [OF True]
    have "position (configAdBreaks ?s2 ! nat (findIndex ?P (configAdBreaks ?s2))) = Num 0" by blast
    then have a: "postrollPlayed (playConfigAdBreak (nat (findIndex ?P (configAdBreaks ?s2))) ?s2) =
        postrollPlayed ?s2"
      by (intro postrollPlayed_playConfigAdBreak) simp
    have b: "handleConfiguredPreroll ?s2 =
        playConfigAdBreak (nat (findIndex ?P (configAdBreaks ?s2))) ?s2"
      unfolding handleConfiguredPreroll_def by (rule if_P [OF True])
    show ?thesis unfolding b a by (rule 2)
  next
    case False
    have b: "handleConfiguredPreroll ?s2 = ?s2"
      unfolding handleConfiguredPreroll_def by (rule if_not_P [OF False])
    show ?thesis unfolding b by (rule 2)
  qed
  have "init s = ?s1 \<or> init s = ?s2 \<or> init s = handleConfiguredPreroll ?s2"
    unfolding init_def handleConfiguredAdBreaks_def Let_def by simp
  with 1 2 3 show ?thesis by metis
qed

lemma postrollPlayed_onTimeUpdate:
  assumes inv: "schedulerInv s"
  shows "postrollPlayed (onTimeUpdate s) = postrollPlayed s"
proof (cases "\<not> paused (player s) \<and> dueAdBreaks s \<noteq> []")
  case True
  let ?m = "last (dueAdBreaks s)"
  let ?s' = "s\<lparr>snapback := position (configAdBreaks s ! ?m)\<rparr>"
  from True have "?m \<in> set (dueAdBreaks s)" by simp
  then have l: "lessNum (snapback s) (position (configAdBreaks s ! ?m))" by (rule dueAdBreaks_member)
  have z: "lessEqNum (Num 0) (snapback s)" using inv by (simp add: schedulerInv_def)
  have "position (configAdBreaks s ! ?m) \<noteq> Num (- 1)"
  proof
    assume "position (configAdBreaks s ! ?m) = Num (- 1)"
    with l z show False by (cases "snapback s") simp_all
  qed
  then have "postrollPlayed (playConfigAdBreak ?m ?s') = postrollPlayed ?s'"
    by (intro postrollPlayed_playConfigAdBreak) simp
  moreover have "postrollPlayed ?s' = postrollPlayed s" by (simp add: postrollPlayed_def)
  ultimately show ?thesis using True by (simp add: onTimeUpdate_def)
next
  case False
  then show ?thesis by (auto simp: onTimeUpdate_def)
qed

lemma configAdBreaks_kept:
  "configAdBreaks (onAdManifestLoaded ps s) = configAdBreaks s"
  "configAdBreaks (onAdBreakStart b s) = configAdBreaks s"
  "configAdBreaks (onAdLoaded a s) = configAdBreaks s"
  "configAdBreaks (onAdStarted a s) = configAdBreaks s"
  "configAdBreaks (onAdBreakEnd s) = configAdBreaks s"
  "configAdBreaks (onAdsCompleted s) = configAdBreaks s"
  "configAdBreaks (onAdError sev s) = configAdBreaks s"
  "configAdBreaks (onEnded s) = configAdBreaks s"
  "configAdBreaks (onSeeked s) = configAdBreaks s"
  "configAdBreaks (playAdNow adPod s) = configAdBreaks s"
  "configAdBreaks (skipAd s) = configAdBreaks s"
  "configAdBreaks (bumperFinally adCtrl s) = configAdBreaks s"
  by (auto simp: onAdManifestLoaded_def onAdBreakStart_def onAdLoaded_def onAdStarted_def
      onAdBreakEnd_def onAdsCompleted_def onAdError_def onEnded_def bumperFinally_def
      onSeeked_def playAdNow_def playAdBreak_def skipAd_def Let_def split: option.splits)

lemma postrollPlayed_step:
  assumes inv: "schedulerInv s" and before: "\<not> postrollPlayed s"
    and after: "postrollPlayed (step e s)"
  shows "\<exists>k. e = PromiseSettled k \<and> k < length (pending s) \<and> pending s ! k = PrimaryFinally"
proof (cases e)
  case PLAYER_RESET
  with after show ?thesis by (simp add: reset_def not_postrollPlayed_init)
next
  case TIME_UPDATE
  with after before show ?thesis by (simp add: postrollPlayed_onTimeUpdate [OF inv])
next
  case (PromiseSettled k)
  show ?thesis
  proof (cases "k < length (pending s)")
    case False
    with after before PromiseSettled show ?thesis by (simp add: promiseSettled_def)
  next
    case True
    show ?thesis
    proof (cases "pending s ! k")
      case PrimaryFinally
      with True PromiseSettled show ?thesis by simp
    next
      case (BumperFinally a)
      have "configAdBreaks (step e s) = configAdBreaks s"
        using True BumperFinally PromiseSettled
        by (simp add: promiseSettled_def configAdBreaks_kept)
      with after before show ?thesis using postrollPlayed_cong by blast
    qed
  qed
next
  case (ControllerChanged i a d)
  then have "configAdBreaks (step e s) = configAdBreaks s" by simp
  with after before show ?thesis using postrollPlayed_cong by blast
next
  case (PlayerChanged p)
  then have "configAdBreaks (step e s) = configAdBreaks s" by simp
  with after before show ?thesis using postrollPlayed_cong by blast
qed (use after before in \<open>simp_all add: postrollPlayed_def configAdBreaks_kept\<close>)

subsection \<open>The media-ended handler\<close>

lemma playConfigAdBreak_requests:
  "filter isOnPlaybackEnded (effects (playConfigAdBreak i s)) = filter isOnPlaybackEnded (effects s)"
  by (auto simp: playConfigAdBreak_def playAdBreak_def isOnPlaybackEnded_def split: option.splits)

lemma init_chain:
  "pending (init s) = pending s \<and>
   filter isOnPlaybackEnded (effects (init s)) = filter isOnPlaybackEnded (effects s)"
  by (simp add: init_def initMembers_def handleConfiguredAdBreaks_def Let_def
      handleConfiguredPreroll_def onAdManifestLoaded_def
      playConfigAdBreak_pending playConfigAdBreak_requests isOnPlaybackEnded_def)

lemma step_chain:
  assumes "e \<noteq> ENDED" and "\<forall>k. e \<noteq> PromiseSettled k"
  shows "pending (step e s) = pending s \<and>
         filter isOnPlaybackEnded (effects (step e s)) = filter isOnPlaybackEnded (effects s)"
proof (cases e)
  case PLAYER_RESET
  then show ?thesis by (simp add: reset_def init_chain)
next
  case TIME_UPDATE
  then show ?thesis
    by (simp add: onTimeUpdate_def playConfigAdBreak_pending playConfigAdBreak_requests)
next
  case (PromiseSettled k)
  with assms show ?thesis by simp
next
  case ENDED
  with assms show ?thesis by simp
qed (auto simp: onAdManifestLoaded_def onAdBreakStart_def onAdLoaded_def
      onAdStarted_def onAdBreakEnd_def onAdsCompleted_def onAdError_def
      onSeeked_def playAdNow_def playAdBreak_def skipAd_def Let_def isOnPlaybackEnded_def
      split: option.splits)

lemma onEnded_loading: "adIsLoading s \<Longrightarrow> onEnded s = s"
  by (simp add: onEnded_def)

lemma onEnded_no_postroll:
  "\<not> adIsLoading s \<Longrightarrow> Num (- 1) \<notin> set (adBreaksLayout s) \<Longrightarrow>
   onEnded s = s\<lparr>allAdsCompleted := True\<rparr>"
  by (simp add: onEnded_def)

lemma promiseSettled_none: "pending s = [] \<Longrightarrow> promiseSettled k s = s"
  by (simp add: promiseSettled_def)

lemma run_snoc: "run (es @ [e]) s = step e (run es s)"
  by (simp add: run_def)

lemma requests_filter:
  "list_ex isOnPlaybackEnded xs \<longleftrightarrow> filter isOnPlaybackEnded xs \<noteq> []"
  by (simp add: list_ex_iff filter_empty_conv)

lemma new_quiet:
  "pending (new_AdsController p ctrls) = [] \<and>
   \<not> list_ex isOnPlaybackEnded (effects (new_AdsController p ctrls)) \<and>
   \<not> postrollPlayed (new_AdsController p ctrls)"
  unfolding new_AdsController_def
  using init_chain [of "\<lparr>player = p, adsPluginControllers = ctrls, allAdsCompleted = True, adBreaksLayout = [],
           adBreak = None, ad = None, adPlayed = False, snapback = Num 0, configAdBreaks = [],
           adIsLoading = False, pending = [], effects = []\<rparr>"]
  by (simp add: requests_filter not_postrollPlayed_init)

lemma quiet_run:
  assumes "\<forall>i < length es. es ! i = ENDED \<longrightarrow> adIsLoading (run (take i es) (new_AdsController p ctrls))"
  shows "pending (run es (new_AdsController p ctrls)) = [] \<and>
         \<not> list_ex isOnPlaybackEnded (effects (run es (new_AdsController p ctrls))) \<and>
         \<not> postrollPlayed (run es (new_AdsController p ctrls))"
  using assms
proof (induction es rule: rev_induct)
  case Nil
  then show ?case using new_quiet by (simp add: run_def)
next
  case (snoc e es)
  let ?n = "new_AdsController p ctrls"
  let ?s = "run es ?n"
  have pre: "\<forall>i < length es. es ! i = ENDED \<longrightarrow> adIsLoading (run (take i es) ?n)"
  proof (intro allI impI)
    fix i assume i: "i < length es" and e: "es ! i = ENDED"
    from snoc.prems i e have "adIsLoading (run (take i (es @ [e])) ?n)"
      by (auto simp: nth_append)
    then show "adIsLoading (run (take i es) ?n)" using i by simp
  qed
  from snoc.IH [OF pre] have q: "pending ?s = []" "\<not> list_ex isOnPlaybackEnded (effects ?s)"
    "\<not> postrollPlayed ?s" by simp_all
  have last: "e = ENDED \<longrightarrow> adIsLoading ?s"
    using snoc.prems by (auto simp: nth_append)
  have inv: "schedulerInv ?s" by (rule schedulerInv_reachable)
  have np: "\<not> postrollPlayed (step e ?s)"
  proof
    assume "postrollPlayed (step e ?s)"
    from postrollPlayed_step [OF inv q(3) this] q(1) show False by auto
  qed
  have pe: "pending (step e ?s) = [] \<and> \<not> list_ex isOnPlaybackEnded (effects (step e ?s))"
  proof (cases "e = ENDED")
    case True
    with last have "step e ?s = ?s" by (simp add: onEnded_loading)
    with q show ?thesis by simp
  next
    case False
    show ?thesis
    proof (cases "\<exists>k. e = PromiseSettled k")
      case True
      then obtain k where "e = PromiseSettled k" by blast
      then have "step e ?s = ?s" using q(1) by (simp add: promiseSettled_none)
      with q show ?thesis by simp
    next
      case nps: False
      then have "\<forall>k. e \<noteq> PromiseSettled k" by blast
      from step_chain [OF False this, of ?s] q show ?thesis by (simp add: requests_filter)
    qed
  qed
  show ?case unfolding run_snoc using pe np by simp
qed

text \<open>
  Claim C6. The media-ended handler does nothing while an ad is loading. When no ad is
  loading and the layout does not contain -1, it sets \<open>allAdsCompleted\<close> and does nothing
  else: no break is dispatched. Postroll handling runs nowhere else: in every run from
  construction on in which each media-ended notification, if any, arrives while an ad is
  loading, no callback is ever waiting, no controller was asked to finish, no configured
  break at -1 is played, and a settling promise changes nothing.
\<close>

theorem onEnded_gate:
  "(adIsLoading s \<longrightarrow> onEnded s = s) \<and>
   (\<not> adIsLoading s \<and> Num (- 1) \<notin> set (adBreaksLayout s) \<longrightarrow>
      onEnded s = s\<lparr>allAdsCompleted := True\<rparr>) \<and>
   ((\<forall>i < length es. es ! i = ENDED \<longrightarrow>
        adIsLoading (run (take i es) (new_AdsController p ctrls))) \<longrightarrow>
      pending (run es (new_AdsController p ctrls)) = [] \<and>
      \<not> list_ex isOnPlaybackEnded (effects (run es (new_AdsController p ctrls))) \<and>
      \<not> postrollPlayed (run es (new_AdsController p ctrls)) \<and>
      (\<forall>k. promiseSettled k (run es (new_AdsController p ctrls)) =
           run es (new_AdsController p ctrls)))"
proof -
  have 1: "adIsLoading s \<longrightarrow> onEnded s = s" using onEnded_loading by blast
  have 2: "\<not> adIsLoading s \<and> Num (- 1) \<notin> set (adBreaksLayout s) \<longrightarrow>
      onEnded s = s\<lparr>allAdsCompleted := True\<rparr>" using onEnded_no_postroll by blast
  have 3: "(\<forall>i < length es. es ! i = ENDED \<longrightarrow>
        adIsLoading (run (take i es) (new_AdsController p ctrls))) \<longrightarrow>
      pending (run es (new_AdsController p ctrls)) = [] \<and>
      \<not> list_ex isOnPlaybackEnded (effects (run es (new_AdsController p ctrls))) \<and>
      \<not> postrollPlayed (run es (new_AdsController p ctrls)) \<and>
      (\<forall>k. promiseSettled k (run es (new_AdsController p ctrls)) =
           run es (new_AdsController p ctrls))"
  proof
    assume h: "\<forall>i < length es. es ! i = ENDED \<longrightarrow>
        adIsLoading (run (take i es) (new_AdsController p ctrls))"
    note q = quiet_run [OF h]
    from q have "pending (run es (new_AdsController p ctrls)) = []" by blast
    then have "\<forall>k. promiseSettled k (run es (new_AdsController p ctrls)) =
           run es (new_AdsController p ctrls)" by (simp add: promiseSettled_none)
    with q show "pending (run es (new_AdsController p ctrls)) = [] \<and>
      \<not> list_ex isOnPlaybackEnded (effects (run es (new_AdsController p ctrls))) \<and>
      \<not> postrollPlayed (run es (new_AdsController p ctrls)) \<and>
      (\<forall>k. promiseSettled k (run es (new_AdsController p ctrls)) =
           run es (new_AdsController p ctrls))" by blast
  qed
  show ?thesis by (rule conjI [OF 1 conjI [OF 2 3]])
qed

lemma state_post_loading:
  "run [PlayerChanged (playerAt config_0_10_20_post 12), TIME_UPDATE]
       (new_AdsController (playerAt config_0_10_20_post 0) [bumper, ima]) =
     \<lparr>player = playerAt config_0_10_20_post 12, adsPluginControllers = [bumper, ima],
      allAdsCompleted = False, adBreaksLayout = [Num (- 1), Num 0, Num 10, Num 20],
      adBreak = None, ad = None, adPlayed = False, snapback = Num 10,
      configAdBreaks = [\<lparr>position = Num (- 1), ads = [''post''], played = False\<rparr>,
                        \<lparr>position = Num 0, ads = [''pre''], played = True\<rparr>,
                        \<lparr>position = Num 10, ads = [''mid1''], played = True\<rparr>,
                        \<lparr>position = Num 20, ads = [''mid2''], played = False\<rparr>],
      adIsLoading = True, pending = [],
      effects = [Dispatch_AD_MANIFEST_LOADED [Num (- 1), Num 0, Num 10, Num 20],
                 PlayAdNow ''ima'' [''mid1'']]\<rparr>"
proof -
  have "run [PlayerChanged (playerAt config_0_10_20_post 12), TIME_UPDATE]
       (new_AdsController (playerAt config_0_10_20_post 0) [bumper, ima]) =
     onTimeUpdate ((new_AdsController (playerAt config_0_10_20_post 0) [bumper, ima])
       \<lparr>player := playerAt config_0_10_20_post 12\<rparr>)"
    by (simp add: run_def)
  then show ?thesis unfolding state_bumper_ima
    by (simp add: onTimeUpdate_def dueAdBreaks_def playerAt_def upt_rec playConfigAdBreak_def
        playAdBreak_def ima_def bumper_def isBumper_def)
qed

theorem onEnded_gate_witness:
  "adIsLoading (run [PlayerChanged (playerAt config_0_10_20_post 12), TIME_UPDATE]
       (new_AdsController (playerAt config_0_10_20_post 0) [bumper, ima])) \<and>
   onEnded (run [PlayerChanged (playerAt config_0_10_20_post 12), TIME_UPDATE]
       (new_AdsController (playerAt config_0_10_20_post 0) [bumper, ima])) =
     run [PlayerChanged (playerAt config_0_10_20_post 12), TIME_UPDATE]
       (new_AdsController (playerAt config_0_10_20_post 0) [bumper, ima]) \<and>
   \<not> adIsLoading (new_AdsController (playerAt config_5_15 0) [ima]) \<and>
   Num (- 1) \<notin> set (adBreaksLayout (new_AdsController (playerAt config_5_15 0) [ima])) \<and>
   allAdsCompleted (onEnded (new_AdsController (playerAt config_5_15 0) [ima])) \<and>
   [PlayerChanged (playerAt config_0_10_20_post 12), TIME_UPDATE, ENDED] ! 2 = ENDED \<and>
   adIsLoading (run (take 2 [PlayerChanged (playerAt config_0_10_20_post 12), TIME_UPDATE, ENDED])
       (new_AdsController (playerAt config_0_10_20_post 0) [bumper, ima])) \<and>
   Num (- 1) \<in> set (adBreaksLayout (run [PlayerChanged (playerAt config_0_10_20_post 12), TIME_UPDATE, ENDED]
       (new_AdsController (playerAt config_0_10_20_post 0) [bumper, ima]))) \<and>
   pending (run [PlayerChanged (playerAt config_0_10_20_post 12), TIME_UPDATE, ENDED]
       (new_AdsController (playerAt config_0_10_20_post 0) [bumper, ima])) = [] \<and>
   \<not> postrollPlayed (run [PlayerChanged (playerAt config_0_10_20_post 12), TIME_UPDATE, ENDED]
       (new_AdsController (playerAt config_0_10_20_post 0) [bumper, ima]))"
proof -
  let ?n5 = "new_AdsController (playerAt config_5_15 0) [ima]"
  let ?n = "new_AdsController (playerAt config_0_10_20_post 0) [bumper, ima]"
  let ?es2 = "[PlayerChanged (playerAt config_0_10_20_post 12), TIME_UPDATE]"
  let ?es = "[PlayerChanged (playerAt config_0_10_20_post 12), TIME_UPDATE, ENDED]"
  have l: "adIsLoading (run ?es2 ?n)" unfolding state_post_loading by simp
  have lay: "Num (- 1) \<in> set (adBreaksLayout (run ?es2 ?n))" unfolding state_post_loading by simp
  have n: "\<not> adIsLoading ?n5 \<and> Num (- 1) \<notin> set (adBreaksLayout ?n5)" unfolding state_5_15 by simp
  have t2: "take 2 ?es = ?es2" by simp
  have hyp: "\<forall>i < length ?es. ?es ! i = ENDED \<longrightarrow> adIsLoading (run (take i ?es) ?n)"
  proof (intro allI impI)
    fix i assume i: "i < length ?es" and e: "?es ! i = ENDED"
    from i have "i = 0 \<or> i = 1 \<or> i = 2" by auto
    with e have "i = 2" by auto
    then show "adIsLoading (run (take i ?es) ?n)" using l t2 by simp
  qed
  have 1: "onEnded (run ?es2 ?n) = run ?es2 ?n"
    using onEnded_gate [of "run ?es2 ?n" ?es "playerAt config_0_10_20_post 0" "[bumper, ima]"] l
    by blast
  have 2: "onEnded ?n5 = ?n5\<lparr>allAdsCompleted := True\<rparr>"
    using onEnded_gate [of ?n5 ?es "playerAt config_0_10_20_post 0" "[bumper, ima]"] n by blast
  have 3: "pending (run ?es ?n) = [] \<and> \<not> postrollPlayed (run ?es ?n)"
    using onEnded_gate [of ?n ?es "playerAt config_0_10_20_post 0" "[bumper, ima]"] hyp by blast
  have "run ?es ?n = onEnded (run ?es2 ?n)" by (simp add: run_def)
  then have 4: "run ?es ?n = run ?es2 ?n" using 1 by simp
  have 5: "allAdsCompleted (onEnded ?n5)" unfolding 2 by simp
  have 6: "?es ! 2 = ENDED" by simp
  have 7: "adIsLoading (run (take 2 ?es) ?n)" unfolding t2 by (rule l)
  have 8: "Num (- 1) \<in> set (adBreaksLayout (run ?es ?n))" unfolding 4 by (rule lay)
  show ?thesis
    by (rule conjI [OF l conjI [OF 1 conjI [OF conjunct1 [OF n] conjI [OF conjunct2 [OF n]
          conjI [OF 5 conjI [OF 6 conjI [OF 7 conjI [OF 8 3]]]]]]]])
qed

subsection \<open>The stages of postroll handling\<close>

lemma list_all_played_update:
  "list_all played xs \<Longrightarrow> played x \<Longrightarrow> list_all played (xs[i := x])"
  by (auto simp: list_all_iff dest: set_update_subset_insert [THEN subsetD])

lemma handleConfiguredPostroll_found:
  assumes "0 \<le> findIndex (\<lambda>b. \<not> played b \<and> position b = Num (- 1)) (configAdBreaks s)"
  shows "list_all played (configAdBreaks (handleConfiguredPostroll s))"
    and "find (\<lambda>c. \<not> isBumper c) (adsPluginControllers s) = Some c \<Longrightarrow>
         effects (handleConfiguredPostroll s) =
           effects s @ [PlayAdNow (ctrl_name c)
             (ads (configAdBreaks s ! nat (findIndex (\<lambda>b. \<not> played b \<and> position b = Num (- 1)) (configAdBreaks s))))]"
proof -
  let ?i = "nat (findIndex (\<lambda>b. \<not> played b \<and> position b = Num (- 1)) (configAdBreaks s))"
  let ?bs = "map (\<lambda>b. b\<lparr>played := True\<rparr>) (configAdBreaks s)"
  have len: "?i < length (configAdBreaks s)" using findIndex_found [OF assms] by simp
  have all: "list_all played ?bs" by (simp add: list_all_iff)
  then have pi: "played (?bs ! ?i)" using len by (simp add: list_all_length)
  show "list_all played (configAdBreaks (handleConfiguredPostroll s))"
    using assms all pi
    by (auto simp: handleConfiguredPostroll_def playConfigAdBreak_def playAdBreak_def
        list_all_played_update split: option.splits)
  show "effects (handleConfiguredPostroll s) =
           effects s @ [PlayAdNow (ctrl_name c) (ads (configAdBreaks s ! ?i))]"
    if "find (\<lambda>c. \<not> isBumper c) (adsPluginControllers s) = Some c"
    using assms that len
    by (simp add: handleConfiguredPostroll_def playConfigAdBreak_def playAdBreak_def)
qed

lemma handleConfiguredPostroll_none:
  "findIndex (\<lambda>b. \<not> played b \<and> position b = Num (- 1)) (configAdBreaks s) < 0 \<Longrightarrow>
   handleConfiguredPostroll s = s"
  by (simp add: handleConfiguredPostroll_def)

lemma onEnded_bumper:
  "\<not> adIsLoading s \<Longrightarrow> Num (- 1) \<in> set (adBreaksLayout s) \<Longrightarrow>
   find isBumper (adsPluginControllers s) = Some b \<Longrightarrow>
   onEnded s =
     s\<lparr>effects := effects s @ [OnPlaybackEnded (ctrl_name b)],
       pending := pending s @
         [BumperFinally (map_option ctrl_name (find (\<lambda>c. \<not> isBumper c) (adsPluginControllers s)))]\<rparr>"
  by (simp add: onEnded_def)

lemma onEnded_no_bumper:
  "\<not> adIsLoading s \<Longrightarrow> Num (- 1) \<in> set (adBreaksLayout s) \<Longrightarrow>
   find isBumper (adsPluginControllers s) = None \<Longrightarrow>
   onEnded s =
     (case find (\<lambda>c. \<not> isBumper c) (adsPluginControllers s) of
        Some c \<Rightarrow> s\<lparr>effects := effects s @ [OnPlaybackEnded (ctrl_name c)],
                    pending := pending s @ [PrimaryFinally]\<rparr>
      | None \<Rightarrow> s)"
  by (simp add: onEnded_def bumperFinally_def split: option.splits)

lemma promiseSettled_bumper_primary:
  "k < length (pending s) \<Longrightarrow> pending s ! k = BumperFinally (Some n) \<Longrightarrow>
   promiseSettled k s =
     s\<lparr>pending := take k (pending s) @ drop (Suc k) (pending s) @ [PrimaryFinally],
       effects := effects s @ [OnPlaybackEnded n]\<rparr>"
  by (simp add: promiseSettled_def bumperFinally_def)

lemma promiseSettled_bumper_no_primary:
  "k < length (pending s) \<Longrightarrow> pending s ! k = BumperFinally None \<Longrightarrow>
   promiseSettled k s = s\<lparr>pending := take k (pending s) @ drop (Suc k) (pending s)\<rparr>"
  by (simp add: promiseSettled_def bumperFinally_def)

lemma promiseSettled_primary:
  "k < length (pending s) \<Longrightarrow> pending s ! k = PrimaryFinally \<Longrightarrow>
   promiseSettled k s =
     handleConfiguredPostroll (s\<lparr>pending := take k (pending s) @ drop (Suc k) (pending s)\<rparr>)"
  by (simp add: promiseSettled_def)

subsection \<open>Where the callbacks come from\<close>

lemma set_take_drop: "set (take k xs @ drop (Suc k) xs) \<subseteq> set xs"
  using set_take_subset [of k xs] set_drop_subset [of "Suc k" xs] by auto

lemma handleConfiguredPostroll_pending: "pending (handleConfiguredPostroll s) = pending s"
  by (simp add: handleConfiguredPostroll_def playConfigAdBreak_pending)

lemma step_BumperFinally:
  assumes "BumperFinally a \<in> set (pending (step e s))"
  shows "BumperFinally a \<in> set (pending s) \<or>
         (e = ENDED \<and> \<not> adIsLoading s \<and> Num (- 1) \<in> set (adBreaksLayout s) \<and>
          find isBumper (adsPluginControllers s) \<noteq> None)"
proof (cases "e = ENDED")
  case True
  with assms show ?thesis
    by (auto simp: onEnded_def bumperFinally_def Let_def split: if_splits option.splits)
next
  case False
  show ?thesis
  proof (cases "\<exists>k. e = PromiseSettled k")
    case True
    then obtain k where k: "e = PromiseSettled k" by blast
    show ?thesis
    proof (cases "k < length (pending s)")
      case lt: True
      have "set (pending (step e s)) \<subseteq> set (pending s) \<union> {PrimaryFinally}"
        using k lt set_take_drop [of k "pending s"]
        by (auto simp: promiseSettled_def bumperFinally_def handleConfiguredPostroll_pending
            split: promiseCallback.splits option.splits)
      with assms show ?thesis by auto
    next
      case False
      with assms k show ?thesis by (simp add: promiseSettled_def)
    qed
  next
    case nps: False
    then have "\<forall>k. e \<noteq> PromiseSettled k" by blast
    from step_chain [OF False this, of s] assms show ?thesis by simp
  qed
qed

lemma step_PrimaryFinally:
  assumes "PrimaryFinally \<in> set (pending (step e s))"
  shows "PrimaryFinally \<in> set (pending s) \<or>
         (e = ENDED \<and> \<not> adIsLoading s \<and> Num (- 1) \<in> set (adBreaksLayout s) \<and>
          find isBumper (adsPluginControllers s) = None \<and>
          find (\<lambda>c. \<not> isBumper c) (adsPluginControllers s) \<noteq> None) \<or>
         (\<exists>k n. e = PromiseSettled k \<and> k < length (pending s) \<and>
                pending s ! k = BumperFinally (Some n))"
proof (cases "e = ENDED")
  case True
  with assms show ?thesis
    by (auto simp: onEnded_def bumperFinally_def Let_def split: if_splits option.splits)
next
  case False
  show ?thesis
  proof (cases "\<exists>k. e = PromiseSettled k")
    case True
    then obtain k where k: "e = PromiseSettled k" by blast
    show ?thesis
    proof (cases "k < length (pending s)")
      case lt: True
      show ?thesis
      proof (cases "\<exists>n. pending s ! k = BumperFinally (Some n)")
        case True
        with k lt show ?thesis by blast
      next
        case False
        then have "set (pending (step e s)) \<subseteq> set (pending s)"
          using k lt set_take_drop [of k "pending s"]
          by (auto simp: promiseSettled_def bumperFinally_def handleConfiguredPostroll_pending
              split: promiseCallback.splits option.splits)
        with assms show ?thesis by auto
      qed
    next
      case False
      with assms k show ?thesis by (simp add: promiseSettled_def)
    qed
  next
    case nps: False
    then have "\<forall>k. e \<noteq> PromiseSettled k" by blast
    from step_chain [OF False this, of s] assms show ?thesis by simp
  qed
qed

lemma stateBefore_snoc: "i \<le> length es \<Longrightarrow> stateBefore (es @ [e]) s0 i = stateBefore es s0 i"
  by (simp add: stateBefore_def)

lemma stateBefore_last: "stateBefore (es @ [e]) s0 (length es) = run es s0"
  by (simp add: stateBefore_def)

lemma bumperAsked_snoc: "j < length es \<Longrightarrow> bumperAsked (es @ [e]) s0 j = bumperAsked es s0 j"
  by (simp add: bumperAsked_def nth_append stateBefore_snoc)

lemma list_ex_upt_cong:
  "(\<And>j. j < n \<Longrightarrow> P j = Q j) \<Longrightarrow> list_ex P [0 ..< n] = list_ex Q [0 ..< n]"
  by (simp add: list_ex_iff)

lemma list_ex_upt_Suc: "list_ex P [0 ..< n] \<Longrightarrow> list_ex P [0 ..< Suc n]"
  by (auto simp: list_ex_iff)

lemma list_ex_upt_last: "P n \<Longrightarrow> list_ex P [0 ..< Suc n]"
  by (auto simp: list_ex_iff)

lemma bumperAsked_ex_snoc:
  "j \<le> length es \<Longrightarrow>
   list_ex (bumperAsked (es @ [e]) s0) [0 ..< j] = list_ex (bumperAsked es s0) [0 ..< j]"
  by (rule list_ex_upt_cong) (simp add: bumperAsked_snoc)

lemma primaryAsked_snoc:
  assumes "j < length es"
  shows "primaryAsked (es @ [e]) s0 j = primaryAsked es s0 j"
proof -
  have "primaryAskedAtEnded (es @ [e]) s0 j = primaryAskedAtEnded es s0 j"
    using assms by (simp add: primaryAskedAtEnded_def nth_append stateBefore_snoc)
  moreover have "primaryAskedAfterBumper (es @ [e]) s0 j = primaryAskedAfterBumper es s0 j"
  proof -
    have sb: "stateBefore (es @ [e]) s0 j = stateBefore es s0 j"
      using assms by (simp add: stateBefore_snoc)
    have nth: "(es @ [e]) ! j = es ! j" using assms by (simp add: nth_append)
    have bx: "list_ex (bumperAsked (es @ [e]) s0) [0 ..< j] = list_ex (bumperAsked es s0) [0 ..< j]"
      using assms by (simp add: bumperAsked_ex_snoc)
    show ?thesis unfolding primaryAskedAfterBumper_def sb nth bx using assms by simp
  qed
  ultimately show ?thesis by (simp add: primaryAsked_def)
qed

lemma primaryAsked_ex_snoc:
  "j \<le> length es \<Longrightarrow>
   list_ex (primaryAsked (es @ [e]) s0) [0 ..< j] = list_ex (primaryAsked es s0) [0 ..< j]"
  by (rule list_ex_upt_cong) (simp add: primaryAsked_snoc)

lemma postrollAfterPrimary_snoc:
  assumes "i < length es"
  shows "postrollAfterPrimary (es @ [e]) s0 i = postrollAfterPrimary es s0 i"
proof -
  have sb: "stateBefore (es @ [e]) s0 i = stateBefore es s0 i"
    using assms by (simp add: stateBefore_snoc)
  have nth: "(es @ [e]) ! i = es ! i" using assms by (simp add: nth_append)
  have px: "list_ex (primaryAsked (es @ [e]) s0) [0 ..< i] = list_ex (primaryAsked es s0) [0 ..< i]"
    using assms by (simp add: primaryAsked_ex_snoc)
  show ?thesis unfolding postrollAfterPrimary_def sb nth px using assms by simp
qed

lemma postrollAfterPrimary_ex_snoc:
  "j \<le> length es \<Longrightarrow>
   list_ex (postrollAfterPrimary (es @ [e]) s0) [0 ..< j] =
   list_ex (postrollAfterPrimary es s0) [0 ..< j]"
  by (rule list_ex_upt_cong) (simp add: postrollAfterPrimary_snoc)

lemma chain_run:
  "((\<exists>a. BumperFinally a \<in> set (pending (run es (new_AdsController p ctrls)))) \<longrightarrow>
      list_ex (bumperAsked es (new_AdsController p ctrls)) [0 ..< length es]) \<and>
   (PrimaryFinally \<in> set (pending (run es (new_AdsController p ctrls))) \<longrightarrow>
      list_ex (primaryAsked es (new_AdsController p ctrls)) [0 ..< length es]) \<and>
   (postrollPlayed (run es (new_AdsController p ctrls)) \<longrightarrow>
      list_ex (postrollAfterPrimary es (new_AdsController p ctrls)) [0 ..< length es])"
proof (induction es rule: rev_induct)
  case Nil
  then show ?case using new_quiet [of p ctrls] by (simp add: run_def)
next
  case (snoc e es)
  let ?n = "new_AdsController p ctrls"
  let ?s = "run es ?n"
  let ?es = "es @ [e]"
  from snoc have
    ih3: "\<And>a. BumperFinally a \<in> set (pending ?s) \<Longrightarrow> list_ex (bumperAsked es ?n) [0 ..< length es]"
    and ih2: "PrimaryFinally \<in> set (pending ?s) \<Longrightarrow> list_ex (primaryAsked es ?n) [0 ..< length es]"
    and ih1: "postrollPlayed ?s \<Longrightarrow> list_ex (postrollAfterPrimary es ?n) [0 ..< length es]"
    by blast+
  have inv: "schedulerInv ?s" by (rule schedulerInv_reachable)
  have b_old: "list_ex (bumperAsked ?es ?n) [0 ..< length es]"
    if "list_ex (bumperAsked es ?n) [0 ..< length es]"
    using that by (simp add: bumperAsked_ex_snoc)
  have p_old: "list_ex (primaryAsked ?es ?n) [0 ..< length es]"
    if "list_ex (primaryAsked es ?n) [0 ..< length es]"
    using that by (simp add: primaryAsked_ex_snoc)
  have r_old: "list_ex (postrollAfterPrimary ?es ?n) [0 ..< length es]"
    if "list_ex (postrollAfterPrimary es ?n) [0 ..< length es]"
    using that by (simp add: postrollAfterPrimary_ex_snoc)
  have 3: "list_ex (bumperAsked ?es ?n) [0 ..< Suc (length es)]"
    if "BumperFinally a \<in> set (pending (step e ?s))" for a
  proof -
    from step_BumperFinally [OF that]
    consider "BumperFinally a \<in> set (pending ?s)"
      | "e = ENDED \<and> \<not> adIsLoading ?s \<and> Num (- 1) \<in> set (adBreaksLayout ?s) \<and>
          find isBumper (adsPluginControllers ?s) \<noteq> None" by blast
    then show ?thesis
    proof cases
      case 1
      from b_old [OF ih3 [OF 1]] show ?thesis by (rule list_ex_upt_Suc)
    next
      case 2
      then have "bumperAsked ?es ?n (length es)"
        by (simp add: bumperAsked_def stateBefore_last)
      then show ?thesis by (rule list_ex_upt_last)
    qed
  qed
  have 2: "list_ex (primaryAsked ?es ?n) [0 ..< Suc (length es)]"
    if "PrimaryFinally \<in> set (pending (step e ?s))"
  proof -
    from step_PrimaryFinally [OF that]
    consider "PrimaryFinally \<in> set (pending ?s)"
      | "e = ENDED \<and> \<not> adIsLoading ?s \<and> Num (- 1) \<in> set (adBreaksLayout ?s) \<and>
          find isBumper (adsPluginControllers ?s) = None \<and>
          find (\<lambda>c. \<not> isBumper c) (adsPluginControllers ?s) \<noteq> None"
      | k n where "e = PromiseSettled k" "k < length (pending ?s)"
          "pending ?s ! k = BumperFinally (Some n)" by blast
    then show ?thesis
    proof cases
      case 1
      from p_old [OF ih2 [OF 1]] show ?thesis by (rule list_ex_upt_Suc)
    next
      case 2
      then have "primaryAskedAtEnded ?es ?n (length es)"
        by (simp add: primaryAskedAtEnded_def stateBefore_last)
      then have "primaryAsked ?es ?n (length es)" by (simp add: primaryAsked_def)
      then show ?thesis by (rule list_ex_upt_last)
    next
      case 3
      then have "BumperFinally (Some n) \<in> set (pending ?s)" by (metis nth_mem)
      from b_old [OF ih3 [OF this]] 3
      have "primaryAskedAfterBumper ?es ?n (length es)"
        by (simp add: primaryAskedAfterBumper_def stateBefore_last)
      then have "primaryAsked ?es ?n (length es)" by (simp add: primaryAsked_def)
      then show ?thesis by (rule list_ex_upt_last)
    qed
  qed
  have 1: "list_ex (postrollAfterPrimary ?es ?n) [0 ..< Suc (length es)]"
    if "postrollPlayed (step e ?s)"
  proof (cases "postrollPlayed ?s")
    case True
    from r_old [OF ih1 [OF True]] show ?thesis by (rule list_ex_upt_Suc)
  next
    case False
    from postrollPlayed_step [OF inv False that] obtain k where
      k: "e = PromiseSettled k" "k < length (pending ?s)" "pending ?s ! k = PrimaryFinally"
      by blast
    then have "PrimaryFinally \<in> set (pending ?s)" by (metis nth_mem)
    from p_old [OF ih2 [OF this]] k
    have "postrollAfterPrimary ?es ?n (length es)"
      by (simp add: postrollAfterPrimary_def stateBefore_last)
    then show ?thesis by (rule list_ex_upt_last)
  qed
  show ?case unfolding run_snoc using 1 2 3 by auto
qed

lemma state_bumper_only:
  "new_AdsController (playerAt config_0_10_20_post 0) [bumper] =
     \<lparr>player = playerAt config_0_10_20_post 0, adsPluginControllers = [bumper],
      allAdsCompleted = False, adBreaksLayout = [Num (- 1), Num 0, Num 10, Num 20],
      adBreak = None, ad = None, adPlayed = False, snapback = Num 0,
      configAdBreaks = [\<lparr>position = Num (- 1), ads = [''post''], played = False\<rparr>,
                        \<lparr>position = Num 0, ads = [''pre''], played = True\<rparr>,
                        \<lparr>position = Num 10, ads = [''mid1''], played = False\<rparr>,
                        \<lparr>position = Num 20, ads = [''mid2''], played = False\<rparr>],
      adIsLoading = False, pending = [],
      effects = [Dispatch_AD_MANIFEST_LOADED [Num (- 1), Num 0, Num 10, Num 20]]\<rparr>"
  by (simp add: new_AdsController_def init_def initMembers_def
        handleConfiguredAdBreaks_def onAdManifestLoaded_def ingest_config_0_10_20_post
        playerAt_def Let_def defaultSort_def arrayFromSet_def
        digitChar_def handleConfiguredPreroll_def)

text \<open>
  Claim C5, as stated, does not hold: a missing primary controller does not count as
  resolved. With a bumper controller
  only, the layout containing -1 and the postroll break unplayed, the media-ended
  notification asks the bumper to finish; when that promise settles nothing follows: no
  callback is waiting, no break is dispatched and the unplayed breaks stay unplayed,
  where dispatching the postroll would have marked them all played.
\<close>

theorem postroll_counterexample:
  "pending (run [ENDED, PromiseSettled 0] (new_AdsController (playerAt config_0_10_20_post 0) [bumper])) = [] \<and>
   effects (run [ENDED, PromiseSettled 0] (new_AdsController (playerAt config_0_10_20_post 0) [bumper])) =
     [Dispatch_AD_MANIFEST_LOADED [Num (- 1), Num 0, Num 10, Num 20], OnPlaybackEnded ''bumper''] \<and>
   configAdBreaks (run [ENDED, PromiseSettled 0] (new_AdsController (playerAt config_0_10_20_post 0) [bumper])) =
     [\<lparr>position = Num (- 1), ads = [''post''], played = False\<rparr>,
      \<lparr>position = Num 0, ads = [''pre''], played = True\<rparr>,
      \<lparr>position = Num 10, ads = [''mid1''], played = False\<rparr>,
      \<lparr>position = Num 20, ads = [''mid2''], played = False\<rparr>] \<and>
   configAdBreaks (bumperFinallyBySpec None
       (run [ENDED, PromiseSettled 0] (new_AdsController (playerAt config_0_10_20_post 0) [bumper]))) =
     [\<lparr>position = Num (- 1), ads = [''post''], played = True\<rparr>,
      \<lparr>position = Num 0, ads = [''pre''], played = True\<rparr>,
      \<lparr>position = Num 10, ads = [''mid1''], played = True\<rparr>,
      \<lparr>position = Num 20, ads = [''mid2''], played = True\<rparr>]"
proof -
  let ?n = "new_AdsController (playerAt config_0_10_20_post 0) [bumper]"
  have r: "run [ENDED, PromiseSettled 0] ?n = promiseSettled 0 (onEnded ?n)" by (simp add: run_def)
  have s2: "promiseSettled 0 (onEnded ?n) =
     \<lparr>player = playerAt config_0_10_20_post 0, adsPluginControllers = [bumper],
      allAdsCompleted = False, adBreaksLayout = [Num (- 1), Num 0, Num 10, Num 20],
      adBreak = None, ad = None, adPlayed = False, snapback = Num 0,
      configAdBreaks = [\<lparr>position = Num (- 1), ads = [''post''], played = False\<rparr>,
                        \<lparr>position = Num 0, ads = [''pre''], played = True\<rparr>,
                        \<lparr>position = Num 10, ads = [''mid1''], played = False\<rparr>,
                        \<lparr>position = Num 20, ads = [''mid2''], played = False\<rparr>],
      adIsLoading = False, pending = [],
      effects = [Dispatch_AD_MANIFEST_LOADED [Num (- 1), Num 0, Num 10, Num 20],
                 OnPlaybackEnded ''bumper'']\<rparr>"
    unfolding state_bumper_only
    by (simp add: onEnded_def bumper_def isBumper_def promiseSettled_def bumperFinally_def)
  show ?thesis unfolding r s2
    by (simp add: bumperFinallyBySpec_def handleConfiguredPostroll_def playConfigAdBreak_def
        playAdBreak_def bumper_def isBumper_def)
qed

text \<open>
  Claim C5, amended. With a bumper controller, the media-ended handler only asks the
  bumper to finish and leaves the first callback waiting. When that promise settles, the
  callback asks the primary controller to finish and leaves the second callback waiting;
  when that one settles, the postroll is handled. A missing bumper counts as resolved:
  the handler asks the primary controller at once. Without a primary controller the first
  callback does nothing, so the postroll is not handled. No other notification asks a
  controller to finish or changes the waiting callbacks. Handling the postroll, when an
  unplayed break at -1 is configured, marks every configured break played and tells the
  primary controller to play that break's ads; otherwise it changes nothing.

  The order holds of every run from construction on. A configured break at -1 becomes
  played only when the promise of a primary controller settles. Whenever a callback of a
  bumper is waiting, the bumper was asked to finish by an earlier media-ended
  notification that found no ad loading and a postroll in the layout. Whenever a callback
  of a primary controller is waiting, the primary controller was asked to finish
  earlier, either by such a media-ended notification that found no bumper registered, or
  when the promise of a bumper settled that had itself been asked earlier still. Whenever
  a configured break at -1 is played, the promise of a primary controller has settled
  earlier, after that controller had been asked in one of these two ways.
\<close>

theorem postroll_stages_in_order:
  "(\<not> adIsLoading s \<and> Num (- 1) \<in> set (adBreaksLayout s) \<and>
    find isBumper (adsPluginControllers s) = Some b \<longrightarrow>
      onEnded s =
        s\<lparr>effects := effects s @ [OnPlaybackEnded (ctrl_name b)],
          pending := pending s @
            [BumperFinally (map_option ctrl_name (find (\<lambda>c. \<not> isBumper c) (adsPluginControllers s)))]\<rparr>) \<and>
   (\<not> adIsLoading s \<and> Num (- 1) \<in> set (adBreaksLayout s) \<and>
    find isBumper (adsPluginControllers s) = None \<longrightarrow>
      onEnded s =
        (case find (\<lambda>c. \<not> isBumper c) (adsPluginControllers s) of
           Some c \<Rightarrow> s\<lparr>effects := effects s @ [OnPlaybackEnded (ctrl_name c)],
                       pending := pending s @ [PrimaryFinally]\<rparr>
         | None \<Rightarrow> s)) \<and>
   (k < length (pending s) \<and> pending s ! k = BumperFinally (Some n) \<longrightarrow>
      promiseSettled k s =
        s\<lparr>pending := take k (pending s) @ drop (Suc k) (pending s) @ [PrimaryFinally],
          effects := effects s @ [OnPlaybackEnded n]\<rparr>) \<and>
   (k < length (pending s) \<and> pending s ! k = BumperFinally None \<longrightarrow>
      promiseSettled k s = s\<lparr>pending := take k (pending s) @ drop (Suc k) (pending s)\<rparr>) \<and>
   (k < length (pending s) \<and> pending s ! k = PrimaryFinally \<longrightarrow>
      promiseSettled k s =
        handleConfiguredPostroll (s\<lparr>pending := take k (pending s) @ drop (Suc k) (pending s)\<rparr>)) \<and>
   (length (pending s) \<le> k \<longrightarrow> promiseSettled k s = s) \<and>
   (e \<noteq> ENDED \<and> (\<forall>j. e \<noteq> PromiseSettled j) \<longrightarrow>
      pending (step e s) = pending s \<and>
      filter isOnPlaybackEnded (effects (step e s)) = filter isOnPlaybackEnded (effects s)) \<and>
   (0 \<le> findIndex (\<lambda>b. \<not> played b \<and> position b = Num (- 1)) (configAdBreaks s) \<longrightarrow>
      list_all played (configAdBreaks (handleConfiguredPostroll s)) \<and>
      (\<forall>c. find (\<lambda>c. \<not> isBumper c) (adsPluginControllers s) = Some c \<longrightarrow>
         effects (handleConfiguredPostroll s) =
           effects s @ [PlayAdNow (ctrl_name c)
             (ads (configAdBreaks s ! nat (findIndex (\<lambda>b. \<not> played b \<and> position b = Num (- 1)) (configAdBreaks s))))])) \<and>
   (findIndex (\<lambda>b. \<not> played b \<and> position b = Num (- 1)) (configAdBreaks s) < 0 \<longrightarrow>
      handleConfiguredPostroll s = s) \<and>
   (\<not> postrollPlayed (run es (new_AdsController p ctrls)) \<and>
    postrollPlayed (step e (run es (new_AdsController p ctrls))) \<longrightarrow>
      (\<exists>j. e = PromiseSettled j \<and> j < length (pending (run es (new_AdsController p ctrls))) \<and>
           pending (run es (new_AdsController p ctrls)) ! j = PrimaryFinally)) \<and>
   ((\<exists>a. BumperFinally a \<in> set (pending (run es (new_AdsController p ctrls)))) \<longrightarrow>
      list_ex (bumperAsked es (new_AdsController p ctrls)) [0 ..< length es]) \<and>
   (PrimaryFinally \<in> set (pending (run es (new_AdsController p ctrls))) \<longrightarrow>
      list_ex (primaryAsked es (new_AdsController p ctrls)) [0 ..< length es]) \<and>
   (postrollPlayed (run es (new_AdsController p ctrls)) \<longrightarrow>
      list_ex (postrollAfterPrimary es (new_AdsController p ctrls)) [0 ..< length es])"
proof -
  have a1: "\<not> adIsLoading s \<and> Num (- 1) \<in> set (adBreaksLayout s) \<and>
    find isBumper (adsPluginControllers s) = Some b \<longrightarrow>
      onEnded s =
        s\<lparr>effects := effects s @ [OnPlaybackEnded (ctrl_name b)],
          pending := pending s @
            [BumperFinally (map_option ctrl_name (find (\<lambda>c. \<not> isBumper c) (adsPluginControllers s)))]\<rparr>"
    using onEnded_bumper [of s b] by blast
  have a2: "\<not> adIsLoading s \<and> Num (- 1) \<in> set (adBreaksLayout s) \<and>
    find isBumper (adsPluginControllers s) = None \<longrightarrow>
      onEnded s =
        (case find (\<lambda>c. \<not> isBumper c) (adsPluginControllers s) of
           Some c \<Rightarrow> s\<lparr>effects := effects s @ [OnPlaybackEnded (ctrl_name c)],
                       pending := pending s @ [PrimaryFinally]\<rparr>
         | None \<Rightarrow> s)"
    using onEnded_no_bumper [of s] by blast
  have a3: "k < length (pending s) \<and> pending s ! k = BumperFinally (Some n) \<longrightarrow>
      promiseSettled k s =
        s\<lparr>pending := take k (pending s) @ drop (Suc k) (pending s) @ [PrimaryFinally],
          effects := effects s @ [OnPlaybackEnded n]\<rparr>"
    using promiseSettled_bumper_primary [of k s n] by blast
  have a4: "k < length (pending s) \<and> pending s ! k = BumperFinally None \<longrightarrow>
      promiseSettled k s = s\<lparr>pending := take k (pending s) @ drop (Suc k) (pending s)\<rparr>"
    using promiseSettled_bumper_no_primary [of k s] by blast
  have a5: "k < length (pending s) \<and> pending s ! k = PrimaryFinally \<longrightarrow>
      promiseSettled k s =
        handleConfiguredPostroll (s\<lparr>pending := take k (pending s) @ drop (Suc k) (pending s)\<rparr>)"
    using promiseSettled_primary [of k s] by blast
  have a6: "length (pending s) \<le> k \<longrightarrow> promiseSettled k s = s"
    by (simp add: promiseSettled_def)
  have a7: "e \<noteq> ENDED \<and> (\<forall>j. e \<noteq> PromiseSettled j) \<longrightarrow>
      pending (step e s) = pending s \<and>
      filter isOnPlaybackEnded (effects (step e s)) = filter isOnPlaybackEnded (effects s)"
    using step_chain [of e s] by blast
  have a8: "0 \<le> findIndex (\<lambda>b. \<not> played b \<and> position b = Num (- 1)) (configAdBreaks s) \<longrightarrow>
      list_all played (configAdBreaks (handleConfiguredPostroll s)) \<and>
      (\<forall>c. find (\<lambda>c. \<not> isBumper c) (adsPluginControllers s) = Some c \<longrightarrow>
         effects (handleConfiguredPostroll s) =
           effects s @ [PlayAdNow (ctrl_name c)
             (ads (configAdBreaks s ! nat (findIndex (\<lambda>b. \<not> played b \<and> position b = Num (- 1)) (configAdBreaks s))))])"
    using handleConfiguredPostroll_found [of s] by blast
  have a9: "findIndex (\<lambda>b. \<not> played b \<and> position b = Num (- 1)) (configAdBreaks s) < 0 \<longrightarrow>
      handleConfiguredPostroll s = s"
    using handleConfiguredPostroll_none [of s] by blast
  have b1: "\<not> postrollPlayed (run es (new_AdsController p ctrls)) \<and>
    postrollPlayed (step e (run es (new_AdsController p ctrls))) \<longrightarrow>
      (\<exists>j. e = PromiseSettled j \<and> j < length (pending (run es (new_AdsController p ctrls))) \<and>
           pending (run es (new_AdsController p ctrls)) ! j = PrimaryFinally)"
    using postrollPlayed_step [OF schedulerInv_reachable [of es p ctrls], of e] by blast
  note b2 = chain_run [of es p ctrls]
  show ?thesis
    by (rule conjI [OF a1 conjI [OF a2 conjI [OF a3 conjI [OF a4 conjI [OF a5 conjI [OF a6
          conjI [OF a7 conjI [OF a8 conjI [OF a9 conjI [OF b1 b2]]]]]]]]]])
qed


theorem postroll_stages_in_order_witness:
  "\<not> adIsLoading (new_AdsController (playerAt config_0_10_20_post 0) [bumper, ima]) \<and>
   Num (- 1) \<in> set (adBreaksLayout (new_AdsController (playerAt config_0_10_20_post 0) [bumper, ima])) \<and>
   find isBumper (adsPluginControllers (new_AdsController (playerAt config_0_10_20_post 0) [bumper, ima])) =
     Some bumper \<and>
   effects (onEnded (new_AdsController (playerAt config_0_10_20_post 0) [bumper, ima])) =
     [Dispatch_AD_MANIFEST_LOADED [Num (- 1), Num 0, Num 10, Num 20], OnPlaybackEnded ''bumper''] \<and>
   pending (onEnded (new_AdsController (playerAt config_0_10_20_post 0) [bumper, ima])) =
     [BumperFinally (Some ''ima'')] \<and>
   effects (run [ENDED, PromiseSettled 0, PromiseSettled 0]
       (new_AdsController (playerAt config_0_10_20_post 0) [bumper, ima])) =
     [Dispatch_AD_MANIFEST_LOADED [Num (- 1), Num 0, Num 10, Num 20], OnPlaybackEnded ''bumper'',
      OnPlaybackEnded ''ima'', PlayAdNow ''ima'' [''post'']] \<and>
   list_all played (configAdBreaks (run [ENDED, PromiseSettled 0, PromiseSettled 0]
       (new_AdsController (playerAt config_0_10_20_post 0) [bumper, ima]))) \<and>
   postrollPlayed (run [ENDED, PromiseSettled 0, PromiseSettled 0]
       (new_AdsController (playerAt config_0_10_20_post 0) [bumper, ima])) \<and>
   list_ex (postrollAfterPrimary [ENDED, PromiseSettled 0, PromiseSettled 0]
       (new_AdsController (playerAt config_0_10_20_post 0) [bumper, ima]))
     [0 ..< length [ENDED, PromiseSettled 0, PromiseSettled 0]]"
proof -
  let ?s = "new_AdsController (playerAt config_0_10_20_post 0) [bumper, ima]"
  have h: "\<not> adIsLoading ?s \<and> Num (- 1) \<in> set (adBreaksLayout ?s) \<and>
           find isBumper (adsPluginControllers ?s) = Some bumper"
    unfolding state_bumper_ima by (simp add: isBumper_def bumper_def)
  have e1: "onEnded ?s =
        ?s\<lparr>effects := effects ?s @ [OnPlaybackEnded (ctrl_name bumper)],
          pending := pending ?s @
            [BumperFinally (map_option ctrl_name (find (\<lambda>c. \<not> isBumper c) (adsPluginControllers ?s)))]\<rparr>"
    using postroll_stages_in_order [of ?s bumper] h by blast
  have s1: "onEnded ?s =
     \<lparr>player = playerAt config_0_10_20_post 0, adsPluginControllers = [bumper, ima],
      allAdsCompleted = False, adBreaksLayout = [Num (- 1), Num 0, Num 10, Num 20], adBreak = None, ad = None,
      adPlayed = False, snapback = Num 0,
      configAdBreaks = [\<lparr>position = Num (- 1), ads = [''post''], played = False\<rparr>,
                        \<lparr>position = Num 0, ads = [''pre''], played = True\<rparr>,
                        \<lparr>position = Num 10, ads = [''mid1''], played = False\<rparr>,
                        \<lparr>position = Num 20, ads = [''mid2''], played = False\<rparr>],
      adIsLoading = False, pending = [BumperFinally (Some ''ima'')],
      effects = [Dispatch_AD_MANIFEST_LOADED [Num (- 1), Num 0, Num 10, Num 20], OnPlaybackEnded ''bumper'']\<rparr>"
    unfolding e1 unfolding state_bumper_ima by (simp add: isBumper_def bumper_def ima_def)
  have s3: "run [ENDED, PromiseSettled 0, PromiseSettled 0] ?s =
     \<lparr>player = playerAt config_0_10_20_post 0, adsPluginControllers = [bumper, ima],
      allAdsCompleted = False, adBreaksLayout = [Num (- 1), Num 0, Num 10, Num 20], adBreak = None, ad = None,
      adPlayed = False, snapback = Num 0,
      configAdBreaks = [\<lparr>position = Num (- 1), ads = [''post''], played = True\<rparr>,
                        \<lparr>position = Num 0, ads = [''pre''], played = True\<rparr>,
                        \<lparr>position = Num 10, ads = [''mid1''], played = True\<rparr>,
                        \<lparr>position = Num 20, ads = [''mid2''], played = True\<rparr>],
      adIsLoading = True, pending = [],
      effects = [Dispatch_AD_MANIFEST_LOADED [Num (- 1), Num 0, Num 10, Num 20], OnPlaybackEnded ''bumper'',
                 OnPlaybackEnded ''ima'', PlayAdNow ''ima'' [''post'']]\<rparr>"
  proof -
    have r: "run [ENDED, PromiseSettled 0, PromiseSettled 0] ?s =
             promiseSettled 0 (promiseSettled 0 (onEnded ?s))"
      by (simp add: run_def)
    show ?thesis unfolding r s1
      by (simp add: promiseSettled_def bumperFinally_def handleConfiguredPostroll_def
          playConfigAdBreak_def playAdBreak_def isBumper_def bumper_def ima_def)
  qed
  have pp: "postrollPlayed (run [ENDED, PromiseSettled 0, PromiseSettled 0] ?s)"
    unfolding s3 by (simp add: postrollPlayed_def)
  have ch: "list_ex (postrollAfterPrimary [ENDED, PromiseSettled 0, PromiseSettled 0] ?s)
     [0 ..< length [ENDED, PromiseSettled 0, PromiseSettled 0]]"
    using postroll_stages_in_order [of _ _ _ _ _ "[ENDED, PromiseSettled 0, PromiseSettled 0]"
        "playerAt config_0_10_20_post 0" "[bumper, ima]"] pp by blast
  have r1: "effects (onEnded ?s) =
     [Dispatch_AD_MANIFEST_LOADED [Num (- 1), Num 0, Num 10, Num 20], OnPlaybackEnded ''bumper''] \<and>
   pending (onEnded ?s) = [BumperFinally (Some ''ima'')]" unfolding s1 by simp
  have r3: "effects (run [ENDED, PromiseSettled 0, PromiseSettled 0] ?s) =
     [Dispatch_AD_MANIFEST_LOADED [Num (- 1), Num 0, Num 10, Num 20], OnPlaybackEnded ''bumper'',
      OnPlaybackEnded ''ima'', PlayAdNow ''ima'' [''post'']] \<and>
   list_all played (configAdBreaks (run [ENDED, PromiseSettled 0, PromiseSettled 0] ?s))"
    unfolding s3 by simp
  show ?thesis using h r1 r3 pp ch by (simp only: simp_thms)
qed

end
